theory Spec2Isabelle
  imports Main
begin

section \<open>Strings\<close>

text \<open>
  Python's \<^verbatim>\<open>str.strip()\<close> and \<^verbatim>\<open>str.lower()\<close>, on the ASCII range: a \<open>string\<close> is a
  list of 8-bit characters. \<open>isspace\<close> holds of the ASCII characters for which Python's
  \<^verbatim>\<open>str.isspace()\<close> is true (tab, line feed, vertical tab, form feed, carriage
  return, the four separators 28..31 and the space).
\<close>

definition isspace :: "char \<Rightarrow> bool" where
  "isspace c = (of_char c \<in> {9, 10, 11, 12, 13, 28, 29, 30, 31, 32 :: nat})"

definition strip :: "string \<Rightarrow> string" where
  "strip s = rev (dropWhile isspace (rev (dropWhile isspace s)))"

definition lower_char :: "char \<Rightarrow> char" where
  "lower_char c =
     (case map_of (zip ''ABCDEFGHIJKLMNOPQRSTUVWXYZ'' ''abcdefghijklmnopqrstuvwxyz'') c of
        Some l \<Rightarrow> l
      | None \<Rightarrow> c)"

definition lower :: "string \<Rightarrow> string" where
  "lower s = map lower_char s"

text \<open>\<^verbatim>\<open>sep.join(xs)\<close>\<close>

fun join :: "string \<Rightarrow> string list \<Rightarrow> string" where
  "join sep [] = []"
| "join sep [x] = x"
| "join sep (x # y # ys) = x @ sep @ join sep (y # ys)"

text \<open>\<^verbatim>\<open>str(n)\<close> of a count, in decimal.\<close>

definition digit_char :: "nat \<Rightarrow> char" where
  "digit_char d = ''0123456789'' ! (d mod 10)"

fun str_nat :: "nat \<Rightarrow> string" where
  "str_nat n = (if n < 10 then [digit_char n] else str_nat (n div 10) @ [digit_char (n mod 10)])"

section \<open>Shopping items\<close>

text \<open>
  An item is the dict the remote list returns. Each of the keys \<^verbatim>\<open>id\<close>, \<^verbatim>\<open>value\<close>
  and \<^verbatim>\<open>completed\<close> may be absent (\<open>None\<close>); two items are equal when they agree on
  every key, as Python dicts are.
\<close>

record item =
  item_id :: "string option"
  item_value :: "string option"
  item_completed :: "bool option"

text \<open>\<^verbatim>\<open>item.get('value', '')\<close>\<close>

definition get_value :: "item \<Rightarrow> string" where
  "get_value it = (case item_value it of None \<Rightarrow> [] | Some v \<Rightarrow> v)"

text \<open>\<^verbatim>\<open>item.get('value', '<Unknown Item>')\<close>\<close>

definition get_value_or_unknown :: "item \<Rightarrow> string" where
  "get_value_or_unknown it = (case item_value it of None \<Rightarrow> ''<Unknown Item>'' | Some v \<Rightarrow> v)"

text \<open>\<^verbatim>\<open>item.get('completed', False)\<close>\<close>

definition get_completed :: "item \<Rightarrow> bool" where
  "get_completed it = (case item_completed it of None \<Rightarrow> False | Some b \<Rightarrow> b)"

text \<open>\<^verbatim>\<open>not item.get('id')\<close>: the key is absent, or the id is the empty string.\<close>

definition no_id :: "item \<Rightarrow> bool" where
  "no_id it = (case item_id it of None \<Rightarrow> True | Some i \<Rightarrow> i = [])"

text \<open>\<^verbatim>\<open>filter_incomplete_items\<close> of the API module.\<close>

definition filter_incomplete_items :: "item list \<Rightarrow> item list" where
  "filter_incomplete_items list_items = filter (\<lambda>it. \<not> get_completed it) list_items"

section \<open>The remote list accessor\<close>

text \<open>
  The five calls of the API module are parameters: each takes the state of the remote
  service and returns its answer and the next state. \<open>get_shopping_list_items\<close> answers
  \<open>None\<close> when the list cannot be retrieved.
\<close>

record 's api =
  get_shopping_list_items :: "'s \<Rightarrow> item list option \<times> 's"
  add_shopping_list_item :: "string \<Rightarrow> 's \<Rightarrow> bool \<times> 's"
  delete_shopping_list_item :: "item \<Rightarrow> 's \<Rightarrow> bool \<times> 's"
  mark_item_as_completed :: "item \<Rightarrow> 's \<Rightarrow> bool \<times> 's"
  unmark_item_as_completed :: "item \<Rightarrow> 's \<Rightarrow> bool \<times> 's"

text \<open>
  The world a tool runs in is the remote state together with the trace of the calls made
  so far, each with its answer. The trace is what "no call is made" is stated on.
\<close>

datatype event =
  Get_items "item list option"
| Add_item string bool
| Delete_item item bool
| Mark_completed item bool
| Unmark_completed item bool

type_synonym 's world = "'s \<times> event list"

definition call_get :: "'s api \<Rightarrow> 's world \<Rightarrow> item list option \<times> 's world" where
  "call_get api w =
     (case get_shopping_list_items api (fst w) of
        (r, s') \<Rightarrow> (r, (s', snd w @ [Get_items r])))"

definition call_add :: "'s api \<Rightarrow> string \<Rightarrow> 's world \<Rightarrow> bool \<times> 's world" where
  "call_add api v w =
     (case add_shopping_list_item api v (fst w) of
        (ok, s') \<Rightarrow> (ok, (s', snd w @ [Add_item v ok])))"

definition call_delete :: "'s api \<Rightarrow> item \<Rightarrow> 's world \<Rightarrow> bool \<times> 's world" where
  "call_delete api it w =
     (case delete_shopping_list_item api it (fst w) of
        (ok, s') \<Rightarrow> (ok, (s', snd w @ [Delete_item it ok])))"

definition call_mark :: "'s api \<Rightarrow> item \<Rightarrow> 's world \<Rightarrow> bool \<times> 's world" where
  "call_mark api it w =
     (case mark_item_as_completed api it (fst w) of
        (ok, s') \<Rightarrow> (ok, (s', snd w @ [Mark_completed it ok])))"

definition call_unmark :: "'s api \<Rightarrow> item \<Rightarrow> 's world \<Rightarrow> bool \<times> 's world" where
  "call_unmark api it w =
     (case unmark_item_as_completed api it (fst w) of
        (ok, s') \<Rightarrow> (ok, (s', snd w @ [Unmark_completed it ok])))"

text \<open>The item a mutate-one call was made on.\<close>

fun mutated_item :: "event \<Rightarrow> item option" where
  "mutated_item (Get_items r) = None"
| "mutated_item (Add_item v ok) = None"
| "mutated_item (Delete_item it ok) = Some it"
| "mutated_item (Mark_completed it ok) = Some it"
| "mutated_item (Unmark_completed it ok) = Some it"

section \<open>Batch requests and results\<close>

text \<open>The argument of a tool: \<^verbatim>\<open>Union[str, List[str]]\<close>.\<close>

datatype item_values = Single string | Many "string list"

definition values_to_process :: "item_values \<Rightarrow> string list" where
  "values_to_process item_values = (case item_values of Single s \<Rightarrow> [s] | Many vs \<Rightarrow> vs)"

text \<open>\<^verbatim>\<open>not values_to_process or not any(v.strip() for v in values_to_process)\<close>\<close>

definition no_valid_values :: "string list \<Rightarrow> bool" where
  "no_valid_values vs = (vs = [] \<or> \<not> list_ex (\<lambda>v. strip v \<noteq> []) vs)"

text \<open>
  The \<^verbatim>\<open>results\<close> dict: bucket name to the list of names in it. Every key a tool
  appends to is one of the literal keys its dict is created with.
\<close>

type_synonym results = "string \<rightharpoonup> string list"

definition bucket :: "results \<Rightarrow> string \<Rightarrow> string list" where
  "bucket results k = (case results k of None \<Rightarrow> [] | Some vs \<Rightarrow> vs)"

text \<open>\<^verbatim>\<open>results[k].append(v)\<close>\<close>

definition append_to :: "results \<Rightarrow> string \<Rightarrow> string \<Rightarrow> results" where
  "append_to results k v = results(k \<mapsto> bucket results k @ [v])"

text \<open>
  One line of the summary:
  \<^verbatim>\<open>if results[k]: summary.append(f"{label}{', '.join(results[k])}.")\<close>
\<close>

definition summary_line :: "string \<Rightarrow> string list \<Rightarrow> string list" where
  "summary_line label names = (if names \<noteq> [] then [label @ join '', '' names @ ''.''] else [])"

text \<open>\<^verbatim>\<open>" ".join(summary) if summary else "No actions performed or items provided."\<close>\<close>

definition render_summary :: "string list \<Rightarrow> string" where
  "render_summary summary =
     (if summary \<noteq> [] then join '' '' summary else ''No actions performed or items provided.'')"

text \<open>
  The matching step of \<open>delete_item\<close> and \<open>mark_complete\<close>: the first item of the
  candidates whose stripped and lower-cased value is the lower-cased name. The tools call
  it with a non-empty name, so a match has a non-empty value: the test
  \<^verbatim>\<open>if not item_to_delete\<close> that follows it is false of every match, and true only
  when there is none.
  \<^verbatim>\<open>
  for item in incomplete_items:
      if item.get('value', '').strip().lower() == val_strip.lower():
          item_to_delete = item
          break
  \<close>
\<close>

definition matches :: "string \<Rightarrow> item \<Rightarrow> bool" where
  "matches val_strip it = (lower (strip (get_value it)) = lower val_strip)"

definition find_item :: "item list \<Rightarrow> string \<Rightarrow> item option" where
  "find_item candidates val_strip = find (matches val_strip) candidates"

text \<open>The matching step of \<open>mark_incomplete\<close>, over \<^verbatim>\<open>enumerate(searchable_items)\<close>.\<close>

definition find_item_index :: "item list \<Rightarrow> string \<Rightarrow> (nat \<times> item) option" where
  "find_item_index candidates val_strip =
     find (\<lambda>(i, it). matches val_strip it) (enumerate 0 candidates)"

section \<open>add_item\<close>

definition add_item_step :: "'s api \<Rightarrow> string \<Rightarrow> results \<times> 's world \<Rightarrow> results \<times> 's world" where
  "add_item_step api v st =
     (case st of (results, w) \<Rightarrow>
        let val_strip = strip v in
        if val_strip = [] then (results, w)
        else (case call_add api val_strip w of
                (success, w') \<Rightarrow>
                  if success then (append_to results ''added'' val_strip, w')
                  else (append_to results ''failed'' val_strip, w')))"

fun add_item_loop :: "'s api \<Rightarrow> string list \<Rightarrow> results \<times> 's world \<Rightarrow> results \<times> 's world" where
  "add_item_loop api [] st = st"
| "add_item_loop api (v # vs) st = add_item_loop api vs (add_item_step api v st)"

definition add_item_results :: "'s api \<Rightarrow> item_values \<Rightarrow> 's world \<Rightarrow> (string + results) \<times> 's world" where
  "add_item_results api item_values w =
     (let vs = values_to_process item_values in
      if no_valid_values vs then (Inl ''Error: No valid item values provided to add.'', w)
      else (case add_item_loop api vs ([''added'' \<mapsto> [], ''failed'' \<mapsto> []], w) of
              (results, w') \<Rightarrow> (Inr results, w')))"

definition add_item_summary :: "results \<Rightarrow> string" where
  "add_item_summary results =
     render_summary (summary_line ''Added: '' (bucket results ''added'')
                   @ summary_line ''Failed to add: '' (bucket results ''failed''))"

definition add_item :: "'s api \<Rightarrow> item_values \<Rightarrow> 's world \<Rightarrow> string \<times> 's world" where
  "add_item api item_values w =
     (case add_item_results api item_values w of
        (Inl err, w') \<Rightarrow> (err, w')
      | (Inr results, w') \<Rightarrow> (add_item_summary results, w'))"

section \<open>delete_item\<close>

text \<open>
  The candidates are the incomplete items of the snapshot; a snapshot that is \<open>None\<close>
  or empty gives no candidates
  (\<^verbatim>\<open>filter_incomplete_items(all_items) if all_items else []\<close>).
\<close>

definition incomplete_of :: "item list option \<Rightarrow> item list" where
  "incomplete_of all_items =
     (case all_items of
        None \<Rightarrow> []
      | Some items \<Rightarrow> if items \<noteq> [] then filter_incomplete_items items else [])"

definition delete_item_step ::
  "'s api \<Rightarrow> string \<Rightarrow> item list \<times> results \<times> 's world \<Rightarrow> item list \<times> results \<times> 's world" where
  "delete_item_step api v st =
     (case st of (incomplete_items, results, w) \<Rightarrow>
        let val_strip = strip v in
        if val_strip = [] then (incomplete_items, results, w)
        else (case find_item incomplete_items val_strip of
                None \<Rightarrow> (incomplete_items, append_to results ''not_found'' val_strip, w)
              | Some item_to_delete \<Rightarrow>
                  if no_id item_to_delete
                  then (incomplete_items, append_to results ''missing_id'' val_strip, w)
                  else (case call_delete api item_to_delete w of
                          (success, w') \<Rightarrow>
                            if success
                            then (remove1 item_to_delete incomplete_items,
                                  append_to results ''deleted'' val_strip, w')
                            else (incomplete_items, append_to results ''failed'' val_strip, w'))))"

fun delete_item_loop ::
  "'s api \<Rightarrow> string list \<Rightarrow> item list \<times> results \<times> 's world \<Rightarrow> item list \<times> results \<times> 's world" where
  "delete_item_loop api [] st = st"
| "delete_item_loop api (v # vs) st = delete_item_loop api vs (delete_item_step api v st)"

definition delete_item_results ::
  "'s api \<Rightarrow> item_values \<Rightarrow> 's world \<Rightarrow> (string + results) \<times> 's world" where
  "delete_item_results api item_values w =
     (let vs = values_to_process item_values in
      if no_valid_values vs then (Inl ''Error: No valid item values provided for deletion.'', w)
      else (case call_get api w of
              (all_items, w1) \<Rightarrow>
                (case delete_item_loop api vs
                        (incomplete_of all_items,
                         [''deleted'' \<mapsto> [], ''not_found'' \<mapsto> [], ''missing_id'' \<mapsto> [],
                          ''failed'' \<mapsto> []],
                         w1) of
                   (incomplete_items, results, w') \<Rightarrow> (Inr results, w'))))"

definition delete_item_summary :: "results \<Rightarrow> string" where
  "delete_item_summary results =
     render_summary (summary_line ''Deleted: '' (bucket results ''deleted'')
                   @ summary_line ''Not found (incomplete): '' (bucket results ''not_found'')
                   @ summary_line ''Found but missing ID: '' (bucket results ''missing_id'')
                   @ summary_line ''Failed to delete: '' (bucket results ''failed''))"

definition delete_item :: "'s api \<Rightarrow> item_values \<Rightarrow> 's world \<Rightarrow> string \<times> 's world" where
  "delete_item api item_values w =
     (case delete_item_results api item_values w of
        (Inl err, w') \<Rightarrow> (err, w')
      | (Inr results, w') \<Rightarrow> (delete_item_summary results, w'))"

section \<open>mark_complete\<close>

definition mark_complete_step ::
  "'s api \<Rightarrow> string \<Rightarrow> item list \<times> results \<times> 's world \<Rightarrow> item list \<times> results \<times> 's world" where
  "mark_complete_step api v st =
     (case st of (incomplete_items, results, w) \<Rightarrow>
        let val_strip = strip v in
        if val_strip = [] then (incomplete_items, results, w)
        else (case find_item incomplete_items val_strip of
                None \<Rightarrow> (incomplete_items, append_to results ''not_found'' val_strip, w)
              | Some item_to_mark \<Rightarrow>
                  if get_completed item_to_mark
                  then (incomplete_items, append_to results ''already_complete'' val_strip, w)
                  else (case call_mark api item_to_mark w of
                          (success, w') \<Rightarrow>
                            if success
                            then (remove1 item_to_mark incomplete_items,
                                  append_to results ''marked'' val_strip, w')
                            else (incomplete_items, append_to results ''failed'' val_strip, w'))))"

fun mark_complete_loop ::
  "'s api \<Rightarrow> string list \<Rightarrow> item list \<times> results \<times> 's world \<Rightarrow> item list \<times> results \<times> 's world" where
  "mark_complete_loop api [] st = st"
| "mark_complete_loop api (v # vs) st = mark_complete_loop api vs (mark_complete_step api v st)"

definition mark_complete_results ::
  "'s api \<Rightarrow> item_values \<Rightarrow> 's world \<Rightarrow> (string + results) \<times> 's world" where
  "mark_complete_results api item_values w =
     (let vs = values_to_process item_values in
      if no_valid_values vs then (Inl ''Error: No valid item values provided to mark complete.'', w)
      else (case call_get api w of
              (all_items, w1) \<Rightarrow>
                (case mark_complete_loop api vs
                        (incomplete_of all_items,
                         [''marked'' \<mapsto> [], ''not_found'' \<mapsto> [], ''already_complete'' \<mapsto> [],
                          ''failed'' \<mapsto> []],
                         w1) of
                   (incomplete_items, results, w') \<Rightarrow> (Inr results, w'))))"

definition mark_complete_summary :: "results \<Rightarrow> string" where
  "mark_complete_summary results =
     render_summary (summary_line ''Marked complete: '' (bucket results ''marked'')
                   @ summary_line ''Not found (incomplete): '' (bucket results ''not_found'')
                   @ summary_line ''Already complete: '' (bucket results ''already_complete'')
                   @ summary_line ''Failed to mark complete: '' (bucket results ''failed''))"

definition mark_complete :: "'s api \<Rightarrow> item_values \<Rightarrow> 's world \<Rightarrow> string \<times> 's world" where
  "mark_complete api item_values w =
     (case mark_complete_results api item_values w of
        (Inl err, w') \<Rightarrow> (err, w')
      | (Inr results, w') \<Rightarrow> (mark_complete_summary results, w'))"

section \<open>mark_incomplete\<close>

text \<open>
  The candidates are all the items of the snapshot. A successful call keeps the item in
  the candidates and flags it incomplete there:
  \<^verbatim>\<open>searchable_items[item_index]['completed'] = False\<close>, where \<open>item_index\<close> is
  the position the matching step found, so it is in range. The items of a snapshot are
  distinct objects (each parsed from the response), so the assignment changes the item
  at that position only.
\<close>

definition mark_incomplete_step ::
  "'s api \<Rightarrow> string \<Rightarrow> item list \<times> results \<times> 's world \<Rightarrow> item list \<times> results \<times> 's world" where
  "mark_incomplete_step api v st =
     (case st of (searchable_items, results, w) \<Rightarrow>
        let val_strip = strip v in
        if val_strip = [] then (searchable_items, results, w)
        else (case find_item_index searchable_items val_strip of
                None \<Rightarrow> (searchable_items, append_to results ''not_found'' val_strip, w)
              | Some (item_index, item_to_unmark) \<Rightarrow>
                  if \<not> get_completed item_to_unmark
                  then (searchable_items, append_to results ''already_incomplete'' val_strip, w)
                  else (case call_unmark api item_to_unmark w of
                          (success, w') \<Rightarrow>
                            if success
                            then (searchable_items
                                    [item_index := item_to_unmark\<lparr>item_completed := Some False\<rparr>],
                                  append_to results ''unmarked'' val_strip, w')
                            else (searchable_items, append_to results ''failed'' val_strip, w'))))"

fun mark_incomplete_loop ::
  "'s api \<Rightarrow> string list \<Rightarrow> item list \<times> results \<times> 's world \<Rightarrow> item list \<times> results \<times> 's world" where
  "mark_incomplete_loop api [] st = st"
| "mark_incomplete_loop api (v # vs) st =
     mark_incomplete_loop api vs (mark_incomplete_step api v st)"

definition mark_incomplete_results ::
  "'s api \<Rightarrow> item_values \<Rightarrow> 's world \<Rightarrow> (string + results) \<times> 's world" where
  "mark_incomplete_results api item_values w =
     (let vs = values_to_process item_values in
      if no_valid_values vs
      then (Inl ''Error: No valid item values provided to mark incomplete.'', w)
      else (case call_get api w of
              (None, w1) \<Rightarrow>
                (Inl ''Error: Could not retrieve shopping list items to process request.'', w1)
            | (Some all_items, w1) \<Rightarrow>
                (case mark_incomplete_loop api vs
                        (all_items,
                         [''unmarked'' \<mapsto> [], ''not_found'' \<mapsto> [], ''already_incomplete'' \<mapsto> [],
                          ''failed'' \<mapsto> []],
                         w1) of
                   (searchable_items, results, w') \<Rightarrow> (Inr results, w'))))"

definition mark_incomplete_summary :: "results \<Rightarrow> string" where
  "mark_incomplete_summary results =
     render_summary (summary_line ''Marked incomplete: '' (bucket results ''unmarked'')
                   @ summary_line ''Not found: '' (bucket results ''not_found'')
                   @ summary_line ''Already incomplete: '' (bucket results ''already_incomplete'')
                   @ summary_line ''Failed to mark incomplete: '' (bucket results ''failed''))"

definition mark_incomplete :: "'s api \<Rightarrow> item_values \<Rightarrow> 's world \<Rightarrow> string \<times> 's world" where
  "mark_incomplete api item_values w =
     (case mark_incomplete_results api item_values w of
        (Inl err, w') \<Rightarrow> (err, w')
      | (Inr results, w') \<Rightarrow> (mark_incomplete_summary results, w'))"

section \<open>clear_completed_items\<close>

definition max_iterations :: nat where
  "max_iterations = 10"

text \<open>
  The body of the inner loop, for one completed item of the snapshot. The state is
  \<open>(total_deleted_count, total_failed_items, batch_failed, world)\<close>.
\<close>

definition clear_item_step ::
  "'s api \<Rightarrow> item \<Rightarrow> nat \<times> string list \<times> string list \<times> 's world
     \<Rightarrow> nat \<times> string list \<times> string list \<times> 's world" where
  "clear_item_step api it st =
     (case st of (total_deleted_count, total_failed_items, batch_failed, w) \<Rightarrow>
        let item_value = get_value_or_unknown it in
        if no_id it
        then (total_deleted_count,
              (if item_value @ '' (Missing ID)'' \<notin> set total_failed_items
               then total_failed_items @ [item_value @ '' (Missing ID)'']
               else total_failed_items),
              batch_failed, w)
        else (case call_delete api it w of
                (success, w') \<Rightarrow>
                  if success then (total_deleted_count + 1, total_failed_items, batch_failed, w')
                  else (total_deleted_count, total_failed_items,
                        (if item_value \<notin> set batch_failed \<and> item_value \<notin> set total_failed_items
                         then batch_failed @ [item_value]
                         else batch_failed),
                        w')))"

fun clear_batch_loop ::
  "'s api \<Rightarrow> item list \<Rightarrow> nat \<times> string list \<times> string list \<times> 's world
     \<Rightarrow> nat \<times> string list \<times> string list \<times> 's world" where
  "clear_batch_loop api [] st = st"
| "clear_batch_loop api (it # its) st = clear_batch_loop api its (clear_item_step api it st)"

text \<open>
  How the outer loop was left: by the \<^verbatim>\<open>return\<close> of a failed fetch, by the
  \<^verbatim>\<open>break\<close> of a snapshot with no completed item, or by its condition, at the
  iteration cap.
\<close>

datatype stop = Fetch_failed | No_completed_left | Max_iterations_reached

record clear_outcome =
  stopped :: stop
  iteration :: nat
  total_deleted_count :: nat
  total_failed_items :: "string list"

function clear_loop ::
  "'s api \<Rightarrow> nat \<Rightarrow> nat \<Rightarrow> string list \<Rightarrow> 's world \<Rightarrow> clear_outcome \<times> 's world" where
  "clear_loop api iter deleted failed w =
     (if iter < max_iterations
      then (case call_get api w of
              (None, w1) \<Rightarrow>
                (\<lparr>stopped = Fetch_failed, iteration = iter + 1,
                  total_deleted_count = deleted, total_failed_items = failed\<rparr>, w1)
            | (Some all_items, w1) \<Rightarrow>
                let completed_items_batch = filter get_completed all_items in
                if completed_items_batch = []
                then (\<lparr>stopped = No_completed_left, iteration = iter + 1,
                       total_deleted_count = deleted, total_failed_items = failed\<rparr>, w1)
                else (case clear_batch_loop api completed_items_batch (deleted, failed, [], w1) of
                        (deleted', failed', batch_failed, w2) \<Rightarrow>
                          clear_loop api (iter + 1) deleted' (failed' @ batch_failed) w2))
      else (\<lparr>stopped = Max_iterations_reached, iteration = iter,
              total_deleted_count = deleted, total_failed_items = failed\<rparr>, w))"
  by pat_completeness auto
termination
  by (relation "measure (\<lambda>(api, iter, deleted, failed, w). max_iterations - iter)") auto

declare clear_loop.simps [simp del]

definition clear_completed_items_outcome :: "'s api \<Rightarrow> 's world \<Rightarrow> clear_outcome \<times> 's world" where
  "clear_completed_items_outcome api w = clear_loop api 0 0 [] w"

definition clear_completed_items_message :: "clear_outcome \<Rightarrow> string" where
  "clear_completed_items_message out =
     (if stopped out = Fetch_failed
      then ''Error: Could not retrieve shopping list items during clearing process.''
           @ (if total_deleted_count out > 0 \<or> total_failed_items out \<noteq> []
              then '' So far: Deleted '' @ str_nat (total_deleted_count out)
                   @ '', Failures: '' @ str_nat (length (total_failed_items out)) @ ''.''
              else [])
      else ''Clear completed process finished after '' @ str_nat (iteration out)
           @ '' iteration(s). Total Deleted: '' @ str_nat (total_deleted_count out) @ ''.''
           @ (if total_failed_items out \<noteq> []
              then '' Failures encountered for: '' @ join '', '' (total_failed_items out) @ ''.''
              else []))"

definition clear_completed_items :: "'s api \<Rightarrow> 's world \<Rightarrow> string \<times> 's world" where
  "clear_completed_items api w =
     (case clear_completed_items_outcome api w of
        (out, w') \<Rightarrow> (clear_completed_items_message out, w'))"

section \<open>Reading an outcome\<close>

text \<open>
  A tool's structured outcome is the error string of an early return or the \<open>results\<close>
  dict, with the world it leaves. \<open>results_of\<close> reads the dict (no bucket after an
  early return) and \<open>new_events\<close> the calls made between two worlds.
\<close>

definition results_of :: "(string + results) \<times> 's world \<Rightarrow> results" where
  "results_of r = (case fst r of Inl err \<Rightarrow> Map.empty | Inr results \<Rightarrow> results)"

definition new_events :: "'s world \<Rightarrow> 's world \<Rightarrow> event list" where
  "new_events w w' = drop (length (snd w)) (snd w')"

text \<open>The names a batch processes: stripped, the empty ones skipped.\<close>

definition names_of :: "string list \<Rightarrow> string list" where
  "names_of vs = filter (\<lambda>n. n \<noteq> []) (map strip vs)"

text \<open>
  The names of a batch that fell into bucket \<open>k\<close>, in encounter order, when
  \<open>labels\<close> gives, name by name, the bucket each fell into.
\<close>

definition bucketed :: "string list \<Rightarrow> string list \<Rightarrow> string \<Rightarrow> string list" where
  "bucketed names labels k = map fst (filter (\<lambda>(n, l). l = k) (zip names labels))"

text \<open>
  The buckets \<open>K\<close> of a result partition the names: each name fell into one bucket of
  \<open>K\<close>, and every bucket lists the names that fell into it, in encounter order.
\<close>

definition buckets_partition :: "string list \<Rightarrow> string set \<Rightarrow> results \<Rightarrow> bool" where
  "buckets_partition names K results =
     (\<exists>labels. length labels = length names \<and> set labels \<subseteq> K \<and>
        (\<forall>k. bucket results k = bucketed names labels k))"

text \<open>The specification's \<^verbatim>\<open>normalize(s) = s.strip().lower()\<close>.\<close>

definition normalize :: "string \<Rightarrow> string" where
  "normalize s = lower (strip s)"

text \<open>
  What a trace shows of a run of \<open>clear_completed_items\<close>: the number of snapshots
  fetched, the number of completed items seen in them, over all the snapshots, and the
  number of delete-one calls that succeeded.
\<close>

fun fetches :: "event list \<Rightarrow> nat" where
  "fetches [] = 0"
| "fetches (Get_items r # es) = 1 + fetches es"
| "fetches (e # es) = fetches es"

fun observed_completed :: "event list \<Rightarrow> nat" where
  "observed_completed [] = 0"
| "observed_completed (Get_items (Some all_items) # es) =
     length (filter get_completed all_items) + observed_completed es"
| "observed_completed (e # es) = observed_completed es"

fun successful_deletes :: "event list \<Rightarrow> nat" where
  "successful_deletes [] = 0"
| "successful_deletes (Delete_item it ok # es) = (if ok then 1 else 0) + successful_deletes es"
| "successful_deletes (e # es) = successful_deletes es"

text \<open>The entry of the failure list for an item skipped for its missing id.\<close>

definition missing_id_entry :: "item \<Rightarrow> string" where
  "missing_id_entry it = get_value_or_unknown it @ '' (Missing ID)''"

section \<open>The common shape of the loops of delete_item and mark_complete\<close>

text \<open>
  The loop bodies of \<open>delete_item\<close> and \<open>mark_complete\<close> differ in the check made on
  the match before the call (\<open>skip\<close>, with its bucket \<open>skipped\<close>), in the call, and in the
  bucket of a success (\<open>succeeded\<close>). \<open>match_step\<close> is that body with the differences as
  parameters; both bodies are shown to be instances of it, and the properties of the two
  loops are proved once, on \<open>match_loop\<close>.
\<close>

definition match_step ::
  "(item \<Rightarrow> bool) \<Rightarrow> string \<Rightarrow> string \<Rightarrow> (item \<Rightarrow> 's \<Rightarrow> bool \<times> 's) \<Rightarrow> (item \<Rightarrow> bool \<Rightarrow> event)
     \<Rightarrow> string \<Rightarrow> item list \<times> results \<times> 's world \<Rightarrow> item list \<times> results \<times> 's world" where
  "match_step skip skipped succeeded call ev v st =
     (case st of (pool, res, w) \<Rightarrow>
        if strip v = [] then (pool, res, w)
        else (case find_item pool (strip v) of
                None \<Rightarrow> (pool, append_to res ''not_found'' (strip v), w)
              | Some it \<Rightarrow>
                  if skip it then (pool, append_to res skipped (strip v), w)
                  else (case call it (fst w) of
                          (ok, s') \<Rightarrow>
                            if ok
                            then (remove1 it pool, append_to res succeeded (strip v),
                                  (s', snd w @ [ev it ok]))
                            else (pool, append_to res ''failed'' (strip v),
                                  (s', snd w @ [ev it ok])))))"

fun match_loop ::
  "(item \<Rightarrow> bool) \<Rightarrow> string \<Rightarrow> string \<Rightarrow> (item \<Rightarrow> 's \<Rightarrow> bool \<times> 's) \<Rightarrow> (item \<Rightarrow> bool \<Rightarrow> event)
     \<Rightarrow> string list \<Rightarrow> item list \<times> results \<times> 's world \<Rightarrow> item list \<times> results \<times> 's world" where
  "match_loop skip skipped succeeded call ev [] st = st"
| "match_loop skip skipped succeeded call ev (v # vs) st =
     match_loop skip skipped succeeded call ev vs (match_step skip skipped succeeded call ev v st)"

text \<open>A name is an occurrence of \<open>n\<close> when the two are equal up to case.\<close>

definition same_name :: "string \<Rightarrow> string \<Rightarrow> bool" where
  "same_name n m = (lower m = lower n)"

text \<open>The mutate-one calls of a trace made on an item that matches the name \<open>n\<close>.\<close>

definition calls_on :: "string \<Rightarrow> event list \<Rightarrow> event list" where
  "calls_on n evs =
     filter (\<lambda>e. case mutated_item e of None \<Rightarrow> False | Some x \<Rightarrow> matches n x) evs"

section \<open>A scripted accessor\<close>

text \<open>
  An accessor that answers from a script: the snapshots its fetches return, in order
  (\<open>None\<close> once they run out), and the answers of its mutate-one calls, in order
  (\<open>False\<close> once they run out). The examples run the tools against it.
\<close>

definition scripted :: "(item list option list \<times> bool list) api" where
  "scripted =
     \<lparr>get_shopping_list_items =
        (\<lambda>(fs, bs). case fs of [] \<Rightarrow> (None, (fs, bs)) | f # fs' \<Rightarrow> (f, (fs', bs))),
      add_shopping_list_item =
        (\<lambda>v (fs, bs). case bs of [] \<Rightarrow> (False, (fs, bs)) | b # bs' \<Rightarrow> (b, (fs, bs'))),
      delete_shopping_list_item =
        (\<lambda>it (fs, bs). case bs of [] \<Rightarrow> (False, (fs, bs)) | b # bs' \<Rightarrow> (b, (fs, bs'))),
      mark_item_as_completed =
        (\<lambda>it (fs, bs). case bs of [] \<Rightarrow> (False, (fs, bs)) | b # bs' \<Rightarrow> (b, (fs, bs'))),
      unmark_item_as_completed =
        (\<lambda>it (fs, bs). case bs of [] \<Rightarrow> (False, (fs, bs)) | b # bs' \<Rightarrow> (b, (fs, bs')))\<rparr>"

section \<open>Strings, buckets and outcomes: basic facts\<close>

lemma dropWhile_strip: "dropWhile isspace (strip s) = strip s"
proof (cases "strip s")
  case Nil then show ?thesis by simp
next
  case (Cons c cs)
  let ?t = "dropWhile isspace s"
  have pre: "?t = strip s @ rev (takeWhile isspace (rev ?t))"
    unfolding strip_def
    by (metis rev_append rev_rev_ident takeWhile_dropWhile_id)
  have "?t \<noteq> []" using pre Cons by (metis Nil_is_append_conv list.distinct(1))
  then have "\<not> isspace (hd ?t)" by (rule hd_dropWhile)
  moreover have "hd ?t = c" using pre Cons by (metis hd_append2 list.sel(1) list.distinct(1))
  ultimately show ?thesis using Cons by simp
qed

lemma strip_strip: "strip (strip s) = strip s"
proof -
  have "dropWhile isspace (rev (strip s)) = rev (strip s)"
  proof (cases "rev (strip s)")
    case Nil then show ?thesis by simp
  next
    case (Cons c cs)
    have r: "rev (strip s) = dropWhile isspace (rev (dropWhile isspace s))"
      by (simp add: strip_def)
    with Cons have "\<not> isspace (hd (rev (strip s)))" by (metis hd_dropWhile list.distinct(1))
    then show ?thesis using Cons by simp
  qed
  then show ?thesis
    by (simp add: strip_def[of "strip s"] dropWhile_strip)
qed

lemma lower_Nil_iff: "lower s = [] \<longleftrightarrow> s = []"
  by (simp add: lower_def)

lemma no_valid_values_iff: "no_valid_values vs \<longleftrightarrow> (\<forall>v \<in> set vs. strip v = [])"
  by (auto simp: no_valid_values_def list_ex_iff)

lemma bucket_append_to:
  "bucket (append_to res key n) k = (if k = key then bucket res k @ [n] else bucket res k)"
  by (simp add: bucket_def append_to_def)

lemma add_item_step_cases:
  assumes "add_item_step api v (res, w) = (res', w')"
  shows "(strip v = [] \<and> res' = res \<and> w' = w) \<or>
         (strip v \<noteq> [] \<and>
          (\<exists>ok s'. add_shopping_list_item api (strip v) (fst w) = (ok, s') \<and>
                   w' = (s', snd w @ [Add_item (strip v) ok]) \<and>
                   res' = append_to res (if ok then ''added'' else ''failed'') (strip v)))"
  using assms
  by (auto simp: add_item_step_def call_add_def Let_def split: if_splits prod.splits)

lemma add_item_loop_stripped:
  assumes "add_item_loop api vs (res, w) = (res', w')"
      and "\<forall>k. \<forall>e \<in> set (bucket res k). strip e \<noteq> []"
  shows "\<forall>k. \<forall>e \<in> set (bucket res' k). strip e \<noteq> []"
  using assms
proof (induction vs arbitrary: res w)
  case Nil
  then show ?case by simp
next
  case (Cons v vs)
  obtain res1 w1 where st: "add_item_step api v (res, w) = (res1, w1)"
    by (cases "add_item_step api v (res, w)")
  have "\<forall>k. \<forall>e \<in> set (bucket res1 k). strip e \<noteq> []"
    using add_item_step_cases[OF st] Cons.prems(2)
    by (auto simp: bucket_append_to strip_strip split: if_splits)
  moreover have "add_item_loop api vs (res1, w1) = (res', w')"
    using Cons.prems(1) st by simp
  ultimately show ?case by (rule Cons.IH[rotated])
qed

lemma results_of_Inr [simp]: "results_of (Inr res, w) = res"
  by (simp add: results_of_def)

lemma results_of_Inl [simp]: "results_of (Inl e, w) = Map.empty"
  by (simp add: results_of_def)

lemma bucket_empty [simp]: "bucket Map.empty k = []"
  by (simp add: bucket_def)

section \<open>Batches with no valid name\<close>

text \<open>
  Claim C8. When every name given to \<open>add_item\<close> is empty after stripping (the empty
  batch included), \<open>add_item\<close> returns exactly
  \<^verbatim>\<open>Error: No valid item values provided to add.\<close> and leaves the world as it was: the
  remote state is untouched and the trace has no new call. And for every batch, no entry
  of any bucket strips to the empty string, so a name that strips to empty is in no bucket.
\<close>

theorem add_item_no_valid_values:
  "((\<forall>v \<in> set (values_to_process item_values). strip v = []) \<longrightarrow>
      add_item api item_values w = (''Error: No valid item values provided to add.'', w)) \<and>
   (\<forall>e \<in> set (bucket (results_of (add_item_results api item_values w)) k). strip e \<noteq> [])"
proof (intro conjI impI)
  assume "\<forall>v \<in> set (values_to_process item_values). strip v = []"
  then show "add_item api item_values w = (''Error: No valid item values provided to add.'', w)"
    by (simp add: add_item_def add_item_results_def no_valid_values_iff)
next
  show "\<forall>e \<in> set (bucket (results_of (add_item_results api item_values w)) k). strip e \<noteq> []"
  proof (cases "no_valid_values (values_to_process item_values)")
    case True
    then show ?thesis by (simp add: add_item_results_def)
  next
    case False
    obtain res' w' where l: "add_item_loop api (values_to_process item_values)
               ([''added'' \<mapsto> [], ''failed'' \<mapsto> []], w) = (res', w')"
      by (cases "add_item_loop api (values_to_process item_values)
               ([''added'' \<mapsto> [], ''failed'' \<mapsto> []], w)")
    have "\<forall>k. \<forall>e \<in> set (bucket [''added'' \<mapsto> [], ''failed'' \<mapsto> []] k). strip e \<noteq> []"
      by (simp add: bucket_def)
    with l have "\<forall>k. \<forall>e \<in> set (bucket res' k). strip e \<noteq> []"
      by (rule add_item_loop_stripped)
    then show ?thesis using False l by (simp add: add_item_results_def)
  qed
qed

theorem add_item_no_valid_values_witness:
  "strip [] = [] \<and> strip ''  '' = [] \<and>
   add_item scripted (Many ['''', ''  '']) (([], [True]), []) =
     (''Error: No valid item values provided to add.'', (([], [True]), [])) \<and>
   bucket (results_of (add_item_results scripted (Many ['''', '' Milk '']) (([], [True]), [])))
     ''added'' = [''Milk''] \<and>
   strip ''Milk'' \<noteq> []"
  using add_item_no_valid_values [of "Many ['''', ''  '']" scripted "(([], [True]), [])"]
    add_item_no_valid_values [of "Many ['''', '' Milk '']" scripted "(([], [True]), [])" "''added''"]
  by (simp add: values_to_process_def strip_def isspace_def add_item_results_def no_valid_values_def
      add_item_step_def call_add_def scripted_def append_to_def bucket_def Let_def results_of_def)

text \<open>
  Claim C9. When every name given to \<open>delete_item\<close>, \<open>mark_complete\<close> or
  \<open>mark_incomplete\<close> is empty after stripping, the tool returns its own error string
  and the world is as it was: the early return is before the fetch, so the trace has no
  fetch-all and no mutate-one call and the remote state is unchanged.
\<close>

theorem batch_no_valid_values:
  "(\<forall>v \<in> set (values_to_process item_values). strip v = []) \<longrightarrow>
     delete_item api item_values w = (''Error: No valid item values provided for deletion.'', w) \<and>
     mark_complete api item_values w =
       (''Error: No valid item values provided to mark complete.'', w) \<and>
     mark_incomplete api item_values w =
       (''Error: No valid item values provided to mark incomplete.'', w)"
  by (simp add: delete_item_def delete_item_results_def mark_complete_def mark_complete_results_def
      mark_incomplete_def mark_incomplete_results_def no_valid_values_iff)

theorem batch_no_valid_values_witness:
  "strip '' '' = [] \<and> strip [] = [] \<and>
   delete_item scripted (Many ['' '', '''']) (([Some []], [True]), []) =
     (''Error: No valid item values provided for deletion.'', (([Some []], [True]), [])) \<and>
   mark_complete scripted (Many ['' '', '''']) (([Some []], [True]), []) =
     (''Error: No valid item values provided to mark complete.'', (([Some []], [True]), [])) \<and>
   mark_incomplete scripted (Many ['' '', '''']) (([Some []], [True]), []) =
     (''Error: No valid item values provided to mark incomplete.'', (([Some []], [True]), []))"
  using batch_no_valid_values [of "Many ['' '', '''']" scripted "(([Some []], [True]), [])"]
  by (simp add: values_to_process_def strip_def isspace_def)

section \<open>The matching step\<close>

lemma matches_normalize: "matches val_strip it \<longleftrightarrow> normalize (get_value it) = lower val_strip"
  by (simp add: matches_def normalize_def)

lemma find_item_index_Some_iff:
  "find_item_index candidates val_strip = Some (i, it) \<longleftrightarrow>
     i < length candidates \<and> candidates ! i = it \<and> matches val_strip it \<and>
     (\<forall>j < i. \<not> matches val_strip (candidates ! j))"
  unfolding find_item_index_def find_Some_iff
  by (auto simp: nth_enumerate_eq)

lemma find_item_index_None_iff:
  "find_item_index candidates val_strip = None \<longleftrightarrow>
     (\<forall>it \<in> set candidates. \<not> matches val_strip it)"
proof -
  have "find_item_index candidates val_strip = None \<longleftrightarrow>
          (\<forall>p \<in> set (enumerate 0 candidates). \<not> matches val_strip (snd p))"
    unfolding find_item_index_def find_None_iff by auto
  also have "\<dots> \<longleftrightarrow> (\<forall>it \<in> snd ` set (enumerate 0 candidates). \<not> matches val_strip it)"
    by blast
  also have "snd ` set (enumerate 0 candidates) = set candidates"
    by (metis map_snd_enumerate set_map)
  finally show ?thesis .
qed

text \<open>
  Claim C7. The matching step of \<open>delete_item\<close> and \<open>mark_complete\<close> (\<open>find_item\<close>) and
  that of \<open>mark_incomplete\<close> (\<open>find_item_index\<close>, which also gives the position) select
  the first candidate, in the order of the list, whose stripped and lower-cased value is
  the lower-cased name, and select none exactly when no candidate's normalized value is
  that name. The tools call the step with the stripped input name, whose lower-casing is
  the normalized name.
\<close>

theorem matching_step_first_match:
  "(find_item candidates val_strip = None \<longleftrightarrow>
      (\<forall>it \<in> set candidates. normalize (get_value it) \<noteq> lower val_strip)) \<and>
   (find_item candidates val_strip = Some it \<longleftrightarrow>
      (\<exists>i < length candidates. candidates ! i = it \<and>
         normalize (get_value it) = lower val_strip \<and>
         (\<forall>j < i. normalize (get_value (candidates ! j)) \<noteq> lower val_strip))) \<and>
   (find_item_index candidates val_strip = None \<longleftrightarrow>
      (\<forall>it \<in> set candidates. normalize (get_value it) \<noteq> lower val_strip)) \<and>
   (find_item_index candidates val_strip = Some (i, it) \<longleftrightarrow>
      i < length candidates \<and> candidates ! i = it \<and>
      normalize (get_value it) = lower val_strip \<and>
      (\<forall>j < i. normalize (get_value (candidates ! j)) \<noteq> lower val_strip)) \<and>
   lower (strip v) = normalize v"
proof (intro conjI)
  show "find_item candidates val_strip = None \<longleftrightarrow>
      (\<forall>it \<in> set candidates. normalize (get_value it) \<noteq> lower val_strip)"
    by (auto simp: find_item_def find_None_iff matches_normalize)
  show "find_item candidates val_strip = Some it \<longleftrightarrow>
      (\<exists>i < length candidates. candidates ! i = it \<and>
         normalize (get_value it) = lower val_strip \<and>
         (\<forall>j < i. normalize (get_value (candidates ! j)) \<noteq> lower val_strip))"
    unfolding find_item_def find_Some_iff matches_normalize by auto
  show "find_item_index candidates val_strip = None \<longleftrightarrow>
      (\<forall>it \<in> set candidates. normalize (get_value it) \<noteq> lower val_strip)"
    by (simp add: find_item_index_None_iff matches_normalize)
  show "find_item_index candidates val_strip = Some (i, it) \<longleftrightarrow>
      i < length candidates \<and> candidates ! i = it \<and>
      normalize (get_value it) = lower val_strip \<and>
      (\<forall>j < i. normalize (get_value (candidates ! j)) \<noteq> lower val_strip)"
    by (simp add: find_item_index_Some_iff matches_normalize)
  show "lower (strip v) = normalize v"
    by (simp add: normalize_def)
qed

theorem matching_step_first_match_witness:
  "find_item
     [\<lparr>item_id = Some ''7'', item_value = Some ''Eggs'', item_completed = Some False\<rparr>,
      \<lparr>item_id = Some ''8'', item_value = Some '' Milk '', item_completed = Some False\<rparr>,
      \<lparr>item_id = Some ''9'', item_value = Some ''milk'', item_completed = Some False\<rparr>]
     ''MILK'' =
   Some \<lparr>item_id = Some ''8'', item_value = Some '' Milk '', item_completed = Some False\<rparr> \<and>
   find_item_index
     [\<lparr>item_id = Some ''7'', item_value = Some ''Eggs'', item_completed = Some False\<rparr>,
      \<lparr>item_id = Some ''8'', item_value = Some '' Milk '', item_completed = Some False\<rparr>,
      \<lparr>item_id = Some ''9'', item_value = Some ''milk'', item_completed = Some False\<rparr>]
     ''MILK'' =
   Some (1, \<lparr>item_id = Some ''8'', item_value = Some '' Milk '', item_completed = Some False\<rparr>) \<and>
   find_item
     [\<lparr>item_id = Some ''7'', item_value = Some ''Eggs'', item_completed = Some False\<rparr>]
     ''milk'' = None \<and>
   normalize (get_value \<lparr>item_id = Some ''7'', item_value = Some ''Eggs'', item_completed = Some False\<rparr>)
     \<noteq> lower ''milk''"
  using matching_step_first_match
    [of "[\<lparr>item_id = Some ''7'', item_value = Some ''Eggs'', item_completed = Some False\<rparr>]"
        "''milk''"]
  by (simp add: find_item_def find_item_index_def matches_def get_value_def strip_def isspace_def
      lower_def lower_char_def normalize_def)

section \<open>clear_completed_items: the trace of a run\<close>

lemma fetches_append: "fetches (xs @ ys) = fetches xs + fetches ys"
  by (induction xs rule: fetches.induct) auto

lemma observed_completed_append:
  "observed_completed (xs @ ys) = observed_completed xs + observed_completed ys"
  by (induction xs rule: observed_completed.induct) auto

lemma successful_deletes_append:
  "successful_deletes (xs @ ys) = successful_deletes xs + successful_deletes ys"
  by (induction xs rule: successful_deletes.induct) auto

lemma successful_deletes_le: "successful_deletes es \<le> length es"
  by (induction es rule: successful_deletes.induct) auto

lemma clear_item_step_cases:
  assumes "clear_item_step api it (cnt, failed, bf, w) = (cnt', failed', bf', w')"
  shows "(no_id it \<and> cnt' = cnt \<and> bf' = bf \<and> w' = w \<and>
            failed' = (if missing_id_entry it \<in> set failed then failed
                       else failed @ [missing_id_entry it])) \<or>
         (\<not> no_id it \<and> failed' = failed \<and>
            (\<exists>ok s'. delete_shopping_list_item api it (fst w) = (ok, s') \<and>
               w' = (s', snd w @ [Delete_item it ok]) \<and>
               cnt' = (if ok then cnt + 1 else cnt) \<and>
               bf' = (if \<not> ok \<and> get_value_or_unknown it \<notin> set bf \<and>
                          get_value_or_unknown it \<notin> set failed
                      then bf @ [get_value_or_unknown it] else bf)))"
  using assms
  by (auto simp: clear_item_step_def call_delete_def missing_id_entry_def Let_def
      split: if_splits prod.splits)

lemma clear_batch_loop_trace:
  assumes "clear_batch_loop api its (cnt, failed, bf, w) = (cnt', failed', bf', w')"
  shows "\<exists>evs. snd w' = snd w @ evs \<and>
           (\<forall>e \<in> set evs. \<exists>x ok. e = Delete_item x ok \<and> x \<in> set its \<and> \<not> no_id x) \<and>
           cnt' = cnt + successful_deletes evs \<and> length evs \<le> length its"
  using assms
proof (induction its arbitrary: cnt failed bf w)
  case Nil
  then show ?case by simp
next
  case (Cons it its)
  obtain c1 f1 b1 w1 where st: "clear_item_step api it (cnt, failed, bf, w) = (c1, f1, b1, w1)"
    by (metis prod_cases4)
  with Cons.prems have "clear_batch_loop api its (c1, f1, b1, w1) = (cnt', failed', bf', w')"
    by simp
  from Cons.IH[OF this] obtain evs where evs: "snd w' = snd w1 @ evs"
      "\<forall>e \<in> set evs. \<exists>x ok. e = Delete_item x ok \<and> x \<in> set its \<and> \<not> no_id x"
      "cnt' = c1 + successful_deletes evs" "length evs \<le> length its"
    by blast
  from clear_item_step_cases[OF st] show ?case
  proof (elim disjE conjE exE)
    assume "no_id it" "c1 = cnt" "w1 = w"
    with evs show ?thesis by (intro exI[of _ evs]) auto
  next
    fix ok s'
    assume a: "\<not> no_id it" "w1 = (s', snd w @ [Delete_item it ok])"
      "c1 = (if ok then cnt + 1 else cnt)"
    with evs show ?thesis
      by (intro exI[of _ "Delete_item it ok # evs"]) auto
  qed
qed

lemma clear_batch_loop_failed:
  assumes "clear_batch_loop api its (cnt, failed, bf, w) = (cnt', failed', bf', w')"
  shows "count_list failed' e =
           (if e \<in> set failed then count_list failed e
            else if \<exists>it \<in> set its. no_id it \<and> missing_id_entry it = e then 1 else 0)"
  using assms
proof (induction its arbitrary: cnt failed bf w)
  case Nil
  then show ?case by (simp add: count_list_0_iff)
next
  case (Cons it its)
  obtain c1 f1 b1 w1 where st: "clear_item_step api it (cnt, failed, bf, w) = (c1, f1, b1, w1)"
    by (metis prod_cases4)
  with Cons.prems have "clear_batch_loop api its (c1, f1, b1, w1) = (cnt', failed', bf', w')"
    by simp
  from Cons.IH[OF this] have ih: "count_list failed' e =
           (if e \<in> set f1 then count_list f1 e
            else if \<exists>it \<in> set its. no_id it \<and> missing_id_entry it = e then 1 else 0)" .
  from clear_item_step_cases[OF st]
  have "(no_id it \<and> f1 = (if missing_id_entry it \<in> set failed then failed
                       else failed @ [missing_id_entry it])) \<or> (\<not> no_id it \<and> f1 = failed)"
    by blast
  then show ?case
    using ih by (auto simp: count_list_append count_list_0_iff split: if_splits)
qed

lemma only_deletes_no_fetch:
  assumes "\<forall>e \<in> set evs. \<exists>x ok. e = Delete_item x ok \<and> P x"
  shows "fetches evs = 0 \<and> observed_completed evs = 0"
  using assms by (induction evs) auto

lemma call_get_world:
  "call_get api w = (r, w1) \<Longrightarrow> snd w1 = snd w @ [Get_items r]"
  by (auto simp: call_get_def split: prod.splits)

lemma clear_loop_trace:
  assumes "clear_loop api iter deleted failed w = (out, w')" and "iter \<le> max_iterations"
  shows "\<exists>evs. snd w' = snd w @ evs \<and> iteration out \<le> max_iterations \<and>
           iteration out = iter + fetches evs \<and>
           total_deleted_count out = deleted + successful_deletes evs \<and>
           successful_deletes evs \<le> observed_completed evs \<and>
           (\<forall>e \<in> set evs. \<forall>x. mutated_item e = Some x \<longrightarrow> \<not> no_id x \<and> get_completed x)"
  using assms
proof (induction api iter deleted failed w arbitrary: out w' rule: clear_loop.induct)
  case (1 api iter deleted failed w)
  note eq = "1.prems"(1)
  show ?case
  proof (cases "iter < max_iterations")
    case False
    with eq "1.prems"(2) have "w' = w" "iteration out = iter" "total_deleted_count out = deleted"
      by (auto simp: clear_loop.simps[of api iter deleted failed w])
    with "1.prems"(2) show ?thesis by (intro exI[of _ "[]"]) simp
  next
    case True
    obtain r w1 where g: "call_get api w = (r, w1)" by (cases "call_get api w")
    note w1 = call_get_world[OF g]
    show ?thesis
    proof (cases r)
      case None
      with True g eq have "w' = w1" "iteration out = iter + 1" "total_deleted_count out = deleted"
        by (auto simp: clear_loop.simps[of api iter deleted failed w])
      with w1 True None show ?thesis by (intro exI[of _ "[Get_items None]"]) simp
    next
      case (Some all_items)
      let ?batch = "filter get_completed all_items"
      show ?thesis
      proof (cases "?batch = []")
        case True
        with \<open>iter < max_iterations\<close> g eq Some
        have "w' = w1" "iteration out = iter + 1" "total_deleted_count out = deleted"
          by (auto simp: clear_loop.simps[of api iter deleted failed w])
        with w1 \<open>iter < max_iterations\<close> Some show ?thesis
          by (intro exI[of _ "[Get_items (Some all_items)]"]) simp
      next
        case False
        obtain d1 f1 b1 w2 where b: "clear_batch_loop api ?batch (deleted, failed, [], w1) = (d1, f1, b1, w2)"
          by (metis prod_cases4)
        from clear_batch_loop_trace[OF b] obtain evs1 where evs1: "snd w2 = snd w1 @ evs1"
            "\<forall>e \<in> set evs1. \<exists>x ok. e = Delete_item x ok \<and> x \<in> set ?batch \<and> \<not> no_id x"
            "d1 = deleted + successful_deletes evs1" "length evs1 \<le> length ?batch"
          by blast
        have rec: "clear_loop api (iter + 1) d1 (f1 @ b1) w2 = (out, w')"
          using \<open>iter < max_iterations\<close> g eq Some False b
          by (simp add: clear_loop.simps[of api iter deleted failed w])
        have "iter + 1 \<le> max_iterations" using \<open>iter < max_iterations\<close> by simp
        from "1.IH"[OF \<open>iter < max_iterations\<close> g[symmetric] Some refl False b[symmetric] refl refl rec this]
        obtain evs2 where evs2: "snd w' = snd w2 @ evs2" "iteration out \<le> max_iterations"
            "iteration out = iter + 1 + fetches evs2"
            "total_deleted_count out = d1 + successful_deletes evs2"
            "successful_deletes evs2 \<le> observed_completed evs2"
            "\<forall>e \<in> set evs2. \<forall>x. mutated_item e = Some x \<longrightarrow> \<not> no_id x \<and> get_completed x"
          by blast
        have z: "fetches evs1 = 0" "observed_completed evs1 = 0"
          using only_deletes_no_fetch[OF evs1(2)] by simp_all
        have le1: "successful_deletes evs1 \<le> length ?batch"
          using successful_deletes_le[of evs1] evs1(4) by simp
        have m1: "\<forall>e \<in> set evs1. \<forall>x. mutated_item e = Some x \<longrightarrow> \<not> no_id x \<and> get_completed x"
          using evs1(2) by fastforce
        show ?thesis
        proof (intro exI[of _ "Get_items (Some all_items) # evs1 @ evs2"] conjI)
          show "snd w' = snd w @ Get_items (Some all_items) # evs1 @ evs2"
            using evs2(1) evs1(1) w1 Some by simp
          show "iteration out \<le> max_iterations" by (rule evs2(2))
          show "iteration out = iter + fetches (Get_items (Some all_items) # evs1 @ evs2)"
            using evs2(3) z by (simp add: fetches_append)
          show "total_deleted_count out =
                  deleted + successful_deletes (Get_items (Some all_items) # evs1 @ evs2)"
            using evs2(4) evs1(3) by (simp add: successful_deletes_append)
          show "successful_deletes (Get_items (Some all_items) # evs1 @ evs2)
                  \<le> observed_completed (Get_items (Some all_items) # evs1 @ evs2)"
            using evs2(5) le1 z by (simp add: successful_deletes_append observed_completed_append)
          show "\<forall>e \<in> set (Get_items (Some all_items) # evs1 @ evs2).
                  \<forall>x. mutated_item e = Some x \<longrightarrow> \<not> no_id x \<and> get_completed x"
            using m1 evs2(6) by auto
        qed
      qed
    qed
  qed
qed

lemma clear_outcome_trace:
  "\<exists>evs. snd (snd (clear_completed_items_outcome api w)) = snd w @ evs \<and>
     iteration (fst (clear_completed_items_outcome api w)) \<le> max_iterations \<and>
     iteration (fst (clear_completed_items_outcome api w)) = fetches evs \<and>
     total_deleted_count (fst (clear_completed_items_outcome api w)) = successful_deletes evs \<and>
     successful_deletes evs \<le> observed_completed evs \<and>
     (\<forall>e \<in> set evs. \<forall>x. mutated_item e = Some x \<longrightarrow> \<not> no_id x \<and> get_completed x)"
proof -
  obtain out w' where o: "clear_loop api 0 0 [] w = (out, w')" by (cases "clear_loop api 0 0 [] w")
  from clear_loop_trace[OF o] show ?thesis
    unfolding clear_completed_items_outcome_def o by simp
qed

lemma new_events_eq: "snd w' = snd w @ evs \<Longrightarrow> new_events w w' = evs"
  by (simp add: new_events_def)

text \<open>
  Claim C4. Whatever the accessor answers, \<open>clear_completed_items\<close> returns (the loop is
  a total function: its measure is the distance of the iteration counter to the cap, the
  accessor's calls being taken to return), after at most 10 iterations, each fetching one
  snapshot; and the deleted count it reports is the number of delete-one calls that
  succeeded, which is at most the number of completed items seen over all its snapshots.
\<close>

theorem clear_completed_items_bounded:
  "iteration (fst (clear_completed_items_outcome api w)) \<le> 10 \<and>
   fetches (new_events w (snd (clear_completed_items_outcome api w))) =
     iteration (fst (clear_completed_items_outcome api w)) \<and>
   total_deleted_count (fst (clear_completed_items_outcome api w)) =
     successful_deletes (new_events w (snd (clear_completed_items_outcome api w))) \<and>
   total_deleted_count (fst (clear_completed_items_outcome api w)) \<le>
     observed_completed (new_events w (snd (clear_completed_items_outcome api w))) \<and>
   clear_completed_items api w =
     (clear_completed_items_message (fst (clear_completed_items_outcome api w)),
      snd (clear_completed_items_outcome api w))"
proof -
  from clear_outcome_trace[of api w] obtain evs where
    evs: "snd (snd (clear_completed_items_outcome api w)) = snd w @ evs"
      "iteration (fst (clear_completed_items_outcome api w)) \<le> max_iterations"
      "iteration (fst (clear_completed_items_outcome api w)) = fetches evs"
      "total_deleted_count (fst (clear_completed_items_outcome api w)) = successful_deletes evs"
      "successful_deletes evs \<le> observed_completed evs"
    by blast
  have ne: "new_events w (snd (clear_completed_items_outcome api w)) = evs"
    using evs(1) by (rule new_events_eq)
  show ?thesis
    using evs(2-5) unfolding ne
    by (simp add: max_iterations_def clear_completed_items_def split: prod.splits)
qed

theorem clear_completed_items_bounded_witness:
  "fst (clear_completed_items_outcome scripted
     ((Some [\<lparr>item_id = Some ''1'', item_value = Some ''Milk'', item_completed = Some True\<rparr>,
             \<lparr>item_id = None, item_value = Some ''Eggs'', item_completed = Some True\<rparr>]
       # replicate 11 (Some [\<lparr>item_id = None, item_value = Some ''Eggs'', item_completed = Some True\<rparr>]),
       [True]), [])) =
     \<lparr>stopped = Max_iterations_reached, iteration = 10, total_deleted_count = 1,
      total_failed_items = [''Eggs (Missing ID)'']\<rparr> \<and>
   observed_completed (new_events
     ((Some [\<lparr>item_id = Some ''1'', item_value = Some ''Milk'', item_completed = Some True\<rparr>,
             \<lparr>item_id = None, item_value = Some ''Eggs'', item_completed = Some True\<rparr>]
       # replicate 11 (Some [\<lparr>item_id = None, item_value = Some ''Eggs'', item_completed = Some True\<rparr>]),
       [True]), [])
     (snd (clear_completed_items_outcome scripted
     ((Some [\<lparr>item_id = Some ''1'', item_value = Some ''Milk'', item_completed = Some True\<rparr>,
             \<lparr>item_id = None, item_value = Some ''Eggs'', item_completed = Some True\<rparr>]
       # replicate 11 (Some [\<lparr>item_id = None, item_value = Some ''Eggs'', item_completed = Some True\<rparr>]),
       [True]), [])))) = 11 \<and>
   (1 :: nat) \<le> 11 \<and> (10 :: nat) \<le> 10"
proof -
  let ?w = "((Some [\<lparr>item_id = Some ''1'', item_value = Some ''Milk'', item_completed = Some True\<rparr>,
             \<lparr>item_id = None, item_value = Some ''Eggs'', item_completed = Some True\<rparr>]
       # replicate 11 (Some [\<lparr>item_id = None, item_value = Some ''Eggs'', item_completed = Some True\<rparr>]),
       [True]), []) :: (item list option list \<times> bool list) world"
  have out: "fst (clear_completed_items_outcome scripted ?w) =
     \<lparr>stopped = Max_iterations_reached, iteration = 10, total_deleted_count = 1,
      total_failed_items = [''Eggs (Missing ID)'']\<rparr>"
    by code_simp
  have obs: "observed_completed (new_events ?w (snd (clear_completed_items_outcome scripted ?w))) = 11"
    by code_simp
  show ?thesis
    using clear_completed_items_bounded[of scripted ?w] out obs by simp
qed

text \<open>
  Completed items without an id, in a run of \<open>clear_completed_items\<close>. No delete-one
  call is made on an item without an id, and the reported deleted count is the number of
  delete-one calls that succeeded, so a skipped item never increments it. In one pass of
  the inner loop, \<open>clear_batch_loop\<close> over the completed items of the snapshot, a
  completed item without an id gets no call, and its entry, the value suffixed with
  \<^verbatim>\<open> (Missing ID)\<close>, is in \<^verbatim>\<open>total_failed_items\<close> afterwards, appended once if
  it was not there and not appended if it was. This is a fact of
  \<^verbatim>\<open>total_failed_items\<close> alone: the test before the append does not read
  \<^verbatim>\<open>batch_failed\<close>, which is added to the list when the pass ends.
\<close>

theorem clear_completed_missing_id_skipped:
  "(\<forall>e \<in> set (new_events w (snd (clear_completed_items_outcome api w))).
      \<forall>x. mutated_item e = Some x \<longrightarrow> \<not> no_id x) \<and>
   total_deleted_count (fst (clear_completed_items_outcome api w)) =
     successful_deletes (new_events w (snd (clear_completed_items_outcome api w))) \<and>
   (clear_batch_loop api completed_items_batch (deleted, failed, batch_failed, w1) =
      (deleted', failed', batch_failed', w1') \<and> it \<in> set completed_items_batch \<and> no_id it \<longrightarrow>
      (\<forall>e \<in> set (new_events w1 w1'). mutated_item e \<noteq> Some it) \<and>
      deleted' = deleted + successful_deletes (new_events w1 w1') \<and>
      missing_id_entry it \<in> set failed' \<and>
      count_list failed' (missing_id_entry it) =
        (if missing_id_entry it \<in> set failed then count_list failed (missing_id_entry it) else 1))"
proof (intro conjI impI)
  from clear_outcome_trace[of api w] obtain evs where
    evs: "snd (snd (clear_completed_items_outcome api w)) = snd w @ evs"
      "total_deleted_count (fst (clear_completed_items_outcome api w)) = successful_deletes evs"
      "\<forall>e \<in> set evs. \<forall>x. mutated_item e = Some x \<longrightarrow> \<not> no_id x \<and> get_completed x"
    by blast
  have ne: "new_events w (snd (clear_completed_items_outcome api w)) = evs"
    using evs(1) by (rule new_events_eq)
  show "\<forall>e \<in> set (new_events w (snd (clear_completed_items_outcome api w))).
      \<forall>x. mutated_item e = Some x \<longrightarrow> \<not> no_id x"
    unfolding ne using evs(3) by blast
  show "total_deleted_count (fst (clear_completed_items_outcome api w)) =
     successful_deletes (new_events w (snd (clear_completed_items_outcome api w)))"
    unfolding ne by (rule evs(2))
next
  assume a: "clear_batch_loop api completed_items_batch (deleted, failed, batch_failed, w1) =
      (deleted', failed', batch_failed', w1') \<and> it \<in> set completed_items_batch \<and> no_id it"
  then have l: "clear_batch_loop api completed_items_batch (deleted, failed, batch_failed, w1) =
      (deleted', failed', batch_failed', w1')" and it: "it \<in> set completed_items_batch" "no_id it"
    by simp_all
  from clear_batch_loop_trace[OF l] obtain evs where evs: "snd w1' = snd w1 @ evs"
      "\<forall>e \<in> set evs. \<exists>x ok. e = Delete_item x ok \<and> x \<in> set completed_items_batch \<and> \<not> no_id x"
      "deleted' = deleted + successful_deletes evs"
    by blast
  have ne: "new_events w1 w1' = evs" using evs(1) by (rule new_events_eq)
  show "\<forall>e \<in> set (new_events w1 w1'). mutated_item e \<noteq> Some it"
    unfolding ne using evs(2) it(2) by fastforce
  show "deleted' = deleted + successful_deletes (new_events w1 w1')"
    unfolding ne by (rule evs(3))
  have c: "count_list failed' (missing_id_entry it) =
        (if missing_id_entry it \<in> set failed then count_list failed (missing_id_entry it) else 1)"
    using clear_batch_loop_failed[OF l, of "missing_id_entry it"] it by auto
  then show "count_list failed' (missing_id_entry it) =
        (if missing_id_entry it \<in> set failed then count_list failed (missing_id_entry it) else 1)" .
  show "missing_id_entry it \<in> set failed'"
    using c by (metis count_list_0_iff zero_neq_one)
qed

theorem clear_completed_missing_id_skipped_witness:
  "clear_batch_loop scripted
     [\<lparr>item_id = None, item_value = Some ''Eggs'', item_completed = Some True\<rparr>,
      \<lparr>item_id = Some ''1'', item_value = Some ''Milk'', item_completed = Some True\<rparr>,
      \<lparr>item_id = None, item_value = Some ''Eggs'', item_completed = Some True\<rparr>]
     (0, [], [], (([], [True]), [])) =
     (1, [''Eggs (Missing ID)''], [],
      (([], []), [Delete_item \<lparr>item_id = Some ''1'', item_value = Some ''Milk'', item_completed = Some True\<rparr> True])) \<and>
   no_id \<lparr>item_id = None, item_value = Some ''Eggs'', item_completed = Some True\<rparr> \<and>
   missing_id_entry \<lparr>item_id = None, item_value = Some ''Eggs'', item_completed = Some True\<rparr>
     = ''Eggs (Missing ID)'' \<and>
   count_list [''Eggs (Missing ID)'']
     (missing_id_entry \<lparr>item_id = None, item_value = Some ''Eggs'', item_completed = Some True\<rparr>) = 1"
proof -
  let ?eggs = "\<lparr>item_id = None, item_value = Some ''Eggs'', item_completed = Some True\<rparr>"
  let ?milk = "\<lparr>item_id = Some ''1'', item_value = Some ''Milk'', item_completed = Some True\<rparr>"
  have run: "clear_batch_loop scripted [?eggs, ?milk, ?eggs] (0, [], [], (([], [True]), [])) =
     (1, [''Eggs (Missing ID)''], [], (([], []), [Delete_item ?milk True]))"
    by (simp add: clear_item_step_def call_delete_def scripted_def no_id_def
        get_value_or_unknown_def)
  have n: "no_id ?eggs" by (simp add: no_id_def)
  have m: "missing_id_entry ?eggs = ''Eggs (Missing ID)''"
    by (simp add: missing_id_entry_def get_value_or_unknown_def)
  from clear_completed_missing_id_skipped
    [of "(([], [True]), [])" scripted "[?eggs, ?milk, ?eggs]" 0 "[]" "[]" "(([], [True]), [])"
        1 "[''Eggs (Missing ID)'']" "[]" "(([], []), [Delete_item ?milk True])" ?eggs]
    run n
  have "count_list [''Eggs (Missing ID)''] (missing_id_entry ?eggs) = 1"
    by simp
  with run n m show ?thesis by simp
qed


section \<open>The body of the batch loops, case by case\<close>

lemma delete_item_step_cases:
  assumes "delete_item_step api v (pool, res, w) = (pool', res', w')"
  shows "(strip v = [] \<and> pool' = pool \<and> res' = res \<and> w' = w) \<or>
         (strip v \<noteq> [] \<and> find_item pool (strip v) = None \<and> pool' = pool \<and>
            res' = append_to res ''not_found'' (strip v) \<and> w' = w) \<or>
         (strip v \<noteq> [] \<and> (\<exists>it. find_item pool (strip v) = Some it \<and> no_id it) \<and> pool' = pool \<and>
            res' = append_to res ''missing_id'' (strip v) \<and> w' = w) \<or>
         (strip v \<noteq> [] \<and>
            (\<exists>it ok s'. find_item pool (strip v) = Some it \<and> \<not> no_id it \<and>
               delete_shopping_list_item api it (fst w) = (ok, s') \<and>
               w' = (s', snd w @ [Delete_item it ok]) \<and>
               pool' = (if ok then remove1 it pool else pool) \<and>
               res' = append_to res (if ok then ''deleted'' else ''failed'') (strip v)))"
  using assms
  by (auto simp: delete_item_step_def call_delete_def Let_def
      split: if_splits prod.splits option.splits)

lemma mark_complete_step_cases:
  assumes "mark_complete_step api v (pool, res, w) = (pool', res', w')"
  shows "(strip v = [] \<and> pool' = pool \<and> res' = res \<and> w' = w) \<or>
         (strip v \<noteq> [] \<and> find_item pool (strip v) = None \<and> pool' = pool \<and>
            res' = append_to res ''not_found'' (strip v) \<and> w' = w) \<or>
         (strip v \<noteq> [] \<and> (\<exists>it. find_item pool (strip v) = Some it \<and> get_completed it) \<and>
            pool' = pool \<and> res' = append_to res ''already_complete'' (strip v) \<and> w' = w) \<or>
         (strip v \<noteq> [] \<and>
            (\<exists>it ok s'. find_item pool (strip v) = Some it \<and> \<not> get_completed it \<and>
               mark_item_as_completed api it (fst w) = (ok, s') \<and>
               w' = (s', snd w @ [Mark_completed it ok]) \<and>
               pool' = (if ok then remove1 it pool else pool) \<and>
               res' = append_to res (if ok then ''marked'' else ''failed'') (strip v)))"
  using assms
  by (auto simp: mark_complete_step_def call_mark_def Let_def
      split: if_splits prod.splits option.splits)

lemma mark_incomplete_step_cases:
  assumes "mark_incomplete_step api v (pool, res, w) = (pool', res', w')"
  shows "(strip v = [] \<and> pool' = pool \<and> res' = res \<and> w' = w) \<or>
         (strip v \<noteq> [] \<and> find_item_index pool (strip v) = None \<and> pool' = pool \<and>
            res' = append_to res ''not_found'' (strip v) \<and> w' = w) \<or>
         (strip v \<noteq> [] \<and> (\<exists>i it. find_item_index pool (strip v) = Some (i, it) \<and> \<not> get_completed it) \<and>
            pool' = pool \<and> res' = append_to res ''already_incomplete'' (strip v) \<and> w' = w) \<or>
         (strip v \<noteq> [] \<and>
            (\<exists>i it ok s'. find_item_index pool (strip v) = Some (i, it) \<and> get_completed it \<and>
               unmark_item_as_completed api it (fst w) = (ok, s') \<and>
               w' = (s', snd w @ [Unmark_completed it ok]) \<and>
               pool' = (if ok then pool[i := it\<lparr>item_completed := Some False\<rparr>] else pool) \<and>
               res' = append_to res (if ok then ''unmarked'' else ''failed'') (strip v)))"
  using assms
  by (auto simp: mark_incomplete_step_def call_unmark_def Let_def
      split: if_splits prod.splits option.splits)

section \<open>What the buckets hold\<close>

lemma bucketed_Nil [simp]: "bucketed [] labels k = []"
  by (simp add: bucketed_def)

lemma bucketed_Cons [simp]:
  "bucketed (n # names) (l # labels) k = (if l = k then [n] else []) @ bucketed names labels k"
  by (simp add: bucketed_def)

lemma loop_bucketed:
  fixes loop :: "string list \<Rightarrow> 'st \<Rightarrow> 'st" and res_of :: "'st \<Rightarrow> results"
  assumes nil: "\<And>st. loop [] st = st"
    and cons: "\<And>v vs st. loop (v # vs) st = loop vs (step v st)"
    and step: "\<And>v st. (strip v = [] \<and> res_of (step v st) = res_of st) \<or>
                 (strip v \<noteq> [] \<and> (\<exists>l \<in> K. res_of (step v st) = append_to (res_of st) l (strip v)))"
  shows "\<exists>labels. length labels = length (names_of vs) \<and> set labels \<subseteq> K \<and>
           (\<forall>k. bucket (res_of (loop vs st)) k = bucket (res_of st) k @ bucketed (names_of vs) labels k)"
proof (induction vs arbitrary: st)
  case Nil
  show ?case by (intro exI[of _ "[]"]) (simp add: nil names_of_def)
next
  case (Cons v vs)
  from Cons.IH[of "step v st"] obtain labels where
    l: "length labels = length (names_of vs)" "set labels \<subseteq> K"
       "\<forall>k. bucket (res_of (loop vs (step v st))) k =
            bucket (res_of (step v st)) k @ bucketed (names_of vs) labels k"
    by blast
  from step[of v st] show ?case
  proof (elim disjE conjE bexE)
    assume "strip v = []" "res_of (step v st) = res_of st"
    with l show ?thesis by (intro exI[of _ labels]) (simp add: cons names_of_def)
  next
    fix lab
    assume "strip v \<noteq> []" "lab \<in> K" "res_of (step v st) = append_to (res_of st) lab (strip v)"
    with l show ?thesis
      by (intro exI[of _ "lab # labels"]) (simp add: cons names_of_def bucket_append_to)
  qed
qed

lemma add_item_loop_bucketed:
  fixes api :: "'s api"
  shows "\<exists>labels. length labels = length (names_of vs) \<and> set labels \<subseteq> {''added'', ''failed''} \<and>
     (\<forall>k. bucket (fst (add_item_loop api vs st)) k = bucket (fst st) k @ bucketed (names_of vs) labels k)"
proof (rule loop_bucketed[where loop = "add_item_loop api" and step = "add_item_step api"])
  fix v and st :: "results \<times> 's world"
  obtain res w where st: "st = (res, w)" by (cases st)
  obtain res' w' where s: "add_item_step api v (res, w) = (res', w')"
    by (cases "add_item_step api v (res, w)")
  from add_item_step_cases[OF s]
  show "(strip v = [] \<and> fst (add_item_step api v st) = fst st) \<or>
        (strip v \<noteq> [] \<and> (\<exists>l \<in> {''added'', ''failed''}.
           fst (add_item_step api v st) = append_to (fst st) l (strip v)))"
    unfolding st s by (auto split: if_splits)
qed simp_all

lemma delete_item_loop_bucketed:
  fixes api :: "'s api"
  shows "\<exists>labels. length labels = length (names_of vs) \<and>
     set labels \<subseteq> {''deleted'', ''not_found'', ''missing_id'', ''failed''} \<and>
     (\<forall>k. bucket (fst (snd (delete_item_loop api vs st))) k =
          bucket (fst (snd st)) k @ bucketed (names_of vs) labels k)"
proof (rule loop_bucketed[where loop = "delete_item_loop api" and step = "delete_item_step api"])
  fix v and st :: "item list \<times> results \<times> 's world"
  obtain pool res w where st: "st = (pool, res, w)" by (cases st)
  obtain pool' res' w' where s: "delete_item_step api v (pool, res, w) = (pool', res', w')"
    by (cases "delete_item_step api v (pool, res, w)")
  from delete_item_step_cases[OF s]
  show "(strip v = [] \<and> fst (snd (delete_item_step api v st)) = fst (snd st)) \<or>
        (strip v \<noteq> [] \<and> (\<exists>l \<in> {''deleted'', ''not_found'', ''missing_id'', ''failed''}.
           fst (snd (delete_item_step api v st)) = append_to (fst (snd st)) l (strip v)))"
    unfolding st s by (auto split: if_splits)
qed simp_all

lemma mark_complete_loop_bucketed:
  fixes api :: "'s api"
  shows "\<exists>labels. length labels = length (names_of vs) \<and>
     set labels \<subseteq> {''marked'', ''not_found'', ''already_complete'', ''failed''} \<and>
     (\<forall>k. bucket (fst (snd (mark_complete_loop api vs st))) k =
          bucket (fst (snd st)) k @ bucketed (names_of vs) labels k)"
proof (rule loop_bucketed[where loop = "mark_complete_loop api" and step = "mark_complete_step api"])
  fix v and st :: "item list \<times> results \<times> 's world"
  obtain pool res w where st: "st = (pool, res, w)" by (cases st)
  obtain pool' res' w' where s: "mark_complete_step api v (pool, res, w) = (pool', res', w')"
    by (cases "mark_complete_step api v (pool, res, w)")
  from mark_complete_step_cases[OF s]
  show "(strip v = [] \<and> fst (snd (mark_complete_step api v st)) = fst (snd st)) \<or>
        (strip v \<noteq> [] \<and> (\<exists>l \<in> {''marked'', ''not_found'', ''already_complete'', ''failed''}.
           fst (snd (mark_complete_step api v st)) = append_to (fst (snd st)) l (strip v)))"
    unfolding st s by (auto split: if_splits)
qed simp_all

lemma mark_incomplete_loop_bucketed:
  fixes api :: "'s api"
  shows "\<exists>labels. length labels = length (names_of vs) \<and>
     set labels \<subseteq> {''unmarked'', ''not_found'', ''already_incomplete'', ''failed''} \<and>
     (\<forall>k. bucket (fst (snd (mark_incomplete_loop api vs st))) k =
          bucket (fst (snd st)) k @ bucketed (names_of vs) labels k)"
proof (rule loop_bucketed[where loop = "mark_incomplete_loop api" and step = "mark_incomplete_step api"])
  fix v and st :: "item list \<times> results \<times> 's world"
  obtain pool res w where st: "st = (pool, res, w)" by (cases st)
  obtain pool' res' w' where s: "mark_incomplete_step api v (pool, res, w) = (pool', res', w')"
    by (cases "mark_incomplete_step api v (pool, res, w)")
  from mark_incomplete_step_cases[OF s]
  show "(strip v = [] \<and> fst (snd (mark_incomplete_step api v st)) = fst (snd st)) \<or>
        (strip v \<noteq> [] \<and> (\<exists>l \<in> {''unmarked'', ''not_found'', ''already_incomplete'', ''failed''}.
           fst (snd (mark_incomplete_step api v st)) = append_to (fst (snd st)) l (strip v)))"
    unfolding st s by (auto split: if_splits)
qed simp_all

lemma names_of_Nil_iff: "names_of vs = [] \<longleftrightarrow> no_valid_values vs"
  by (auto simp: names_of_def no_valid_values_iff filter_empty_conv)

lemma buckets_partition_empty: "buckets_partition [] K Map.empty"
  by (simp add: buckets_partition_def)

lemma add_item_partition:
  "buckets_partition (names_of (values_to_process item_values)) {''added'', ''failed''}
     (results_of (add_item_results api item_values w))"
proof (cases "no_valid_values (values_to_process item_values)")
  case True
  then show ?thesis
    by (simp add: add_item_results_def names_of_Nil_iff[THEN iffD2] buckets_partition_empty)
next
  case False
  let ?st = "([''added'' \<mapsto> [], ''failed'' \<mapsto> []], w)"
  have r: "results_of (add_item_results api item_values w) =
             fst (add_item_loop api (values_to_process item_values) ?st)"
    using False by (simp add: add_item_results_def split: prod.splits)
  have "\<And>k. bucket (fst ?st) k = []" by (simp add: bucket_def)
  with add_item_loop_bucketed[of "values_to_process item_values" api ?st]
  show ?thesis unfolding r buckets_partition_def by simp
qed

lemma delete_item_partition:
  "buckets_partition (names_of (values_to_process item_values))
     {''deleted'', ''not_found'', ''missing_id'', ''failed''}
     (results_of (delete_item_results api item_values w))"
proof (cases "no_valid_values (values_to_process item_values)")
  case True
  then show ?thesis
    by (simp add: delete_item_results_def names_of_Nil_iff[THEN iffD2] buckets_partition_empty)
next
  case False
  obtain all_items w1 where g: "call_get api w = (all_items, w1)" by (cases "call_get api w")
  let ?st = "(incomplete_of all_items,
              [''deleted'' \<mapsto> [], ''not_found'' \<mapsto> [], ''missing_id'' \<mapsto> [], ''failed'' \<mapsto> []], w1)"
  have r: "results_of (delete_item_results api item_values w) =
             fst (snd (delete_item_loop api (values_to_process item_values) ?st))"
    using False g by (simp add: delete_item_results_def split: prod.splits)
  have "\<And>k. bucket (fst (snd ?st)) k = []" by (simp add: bucket_def)
  with delete_item_loop_bucketed[of "values_to_process item_values" api ?st]
  show ?thesis unfolding r buckets_partition_def by simp
qed

lemma mark_complete_partition:
  "buckets_partition (names_of (values_to_process item_values))
     {''marked'', ''not_found'', ''already_complete'', ''failed''}
     (results_of (mark_complete_results api item_values w))"
proof (cases "no_valid_values (values_to_process item_values)")
  case True
  then show ?thesis
    by (simp add: mark_complete_results_def names_of_Nil_iff[THEN iffD2] buckets_partition_empty)
next
  case False
  obtain all_items w1 where g: "call_get api w = (all_items, w1)" by (cases "call_get api w")
  let ?st = "(incomplete_of all_items,
              [''marked'' \<mapsto> [], ''not_found'' \<mapsto> [], ''already_complete'' \<mapsto> [], ''failed'' \<mapsto> []], w1)"
  have r: "results_of (mark_complete_results api item_values w) =
             fst (snd (mark_complete_loop api (values_to_process item_values) ?st))"
    using False g by (simp add: mark_complete_results_def split: prod.splits)
  have "\<And>k. bucket (fst (snd ?st)) k = []" by (simp add: bucket_def)
  with mark_complete_loop_bucketed[of "values_to_process item_values" api ?st]
  show ?thesis unfolding r buckets_partition_def by simp
qed

lemma mark_incomplete_partition:
  assumes "fst (get_shopping_list_items api (fst w)) \<noteq> None"
  shows "buckets_partition (names_of (values_to_process item_values))
     {''unmarked'', ''not_found'', ''already_incomplete'', ''failed''}
     (results_of (mark_incomplete_results api item_values w))"
proof (cases "no_valid_values (values_to_process item_values)")
  case True
  then show ?thesis
    by (simp add: mark_incomplete_results_def names_of_Nil_iff[THEN iffD2] buckets_partition_empty)
next
  case False
  obtain r w1 where g: "call_get api w = (r, w1)" by (cases "call_get api w")
  with assms obtain all_items where s: "r = Some all_items"
    by (auto simp: call_get_def split: prod.splits)
  let ?st = "(all_items,
              [''unmarked'' \<mapsto> [], ''not_found'' \<mapsto> [], ''already_incomplete'' \<mapsto> [], ''failed'' \<mapsto> []], w1)"
  have r: "results_of (mark_incomplete_results api item_values w) =
             fst (snd (mark_incomplete_loop api (values_to_process item_values) ?st))"
    using False g s by (simp add: mark_incomplete_results_def split: prod.splits)
  have "\<And>k. bucket (fst (snd ?st)) k = []" by (simp add: bucket_def)
  with mark_incomplete_loop_bucketed[of "values_to_process item_values" api ?st]
  show ?thesis unfolding r buckets_partition_def by simp
qed

text \<open>
  Claim C6, as the code has it. The names a tool records are the stripped input names,
  with their case kept: \<open>val_strip\<close> is appended, not its lower-casing. For
  \<open>add_item\<close>, \<open>delete_item\<close>, \<open>mark_complete\<close> and (when the fetch succeeds, so
  that there is a result) \<open>mark_incomplete\<close>, every non-empty stripped name of the
  batch fell into one bucket of the tool, and every bucket lists the stripped names that
  fell into it, in encounter order.
\<close>

theorem buckets_hold_stripped_names:
  "buckets_partition (names_of (values_to_process item_values)) {''added'', ''failed''}
     (results_of (add_item_results api item_values w)) \<and>
   buckets_partition (names_of (values_to_process item_values))
     {''deleted'', ''not_found'', ''missing_id'', ''failed''}
     (results_of (delete_item_results api item_values w)) \<and>
   buckets_partition (names_of (values_to_process item_values))
     {''marked'', ''not_found'', ''already_complete'', ''failed''}
     (results_of (mark_complete_results api item_values w)) \<and>
   (fst (get_shopping_list_items api (fst w)) \<noteq> None \<longrightarrow>
    buckets_partition (names_of (values_to_process item_values))
     {''unmarked'', ''not_found'', ''already_incomplete'', ''failed''}
     (results_of (mark_incomplete_results api item_values w)))"
  using add_item_partition delete_item_partition mark_complete_partition mark_incomplete_partition
  by blast

theorem buckets_hold_stripped_names_witness:
  "fst (get_shopping_list_items scripted
     ([Some [\<lparr>item_id = Some ''1'', item_value = Some ''milk'', item_completed = Some True\<rparr>]],
      [True])) \<noteq> None \<and>
   buckets_partition (names_of (values_to_process (Many ['' Milk'', '''', ''Eggs''])))
     {''unmarked'', ''not_found'', ''already_incomplete'', ''failed''}
     (results_of (mark_incomplete_results scripted (Many ['' Milk'', '''', ''Eggs''])
        (([Some [\<lparr>item_id = Some ''1'', item_value = Some ''milk'', item_completed = Some True\<rparr>]],
          [True]), []))) \<and>
   names_of (values_to_process (Many ['' Milk'', '''', ''Eggs''])) = [''Milk'', ''Eggs''] \<and>
   bucket (results_of (mark_incomplete_results scripted (Many ['' Milk'', '''', ''Eggs''])
        (([Some [\<lparr>item_id = Some ''1'', item_value = Some ''milk'', item_completed = Some True\<rparr>]],
          [True]), []))) ''unmarked'' = [''Milk''] \<and>
   bucket (results_of (mark_incomplete_results scripted (Many ['' Milk'', '''', ''Eggs''])
        (([Some [\<lparr>item_id = Some ''1'', item_value = Some ''milk'', item_completed = Some True\<rparr>]],
          [True]), []))) ''not_found'' = [''Eggs'']"
proof -
  let ?w = "(([Some [\<lparr>item_id = Some ''1'', item_value = Some ''milk'', item_completed = Some True\<rparr>]],
          [True]), []) :: (item list option list \<times> bool list) world"
  let ?iv = "Many ['' Milk'', '''', ''Eggs'']"
  have f: "fst (get_shopping_list_items scripted (fst ?w)) \<noteq> None"
    by (simp add: scripted_def)
  from buckets_hold_stripped_names[of ?iv scripted ?w] f
  have p: "buckets_partition (names_of (values_to_process ?iv))
     {''unmarked'', ''not_found'', ''already_incomplete'', ''failed''}
     (results_of (mark_incomplete_results scripted ?iv ?w))"
    by blast
  have n: "names_of (values_to_process ?iv) = [''Milk'', ''Eggs'']"
    by (simp add: names_of_def values_to_process_def strip_def isspace_def)
  have b: "bucket (results_of (mark_incomplete_results scripted ?iv ?w)) ''unmarked'' = [''Milk'']"
       "bucket (results_of (mark_incomplete_results scripted ?iv ?w)) ''not_found'' = [''Eggs'']"
    by (simp_all add: mark_incomplete_results_def values_to_process_def no_valid_values_def
      strip_def isspace_def call_get_def call_unmark_def scripted_def mark_incomplete_step_def
      find_item_index_def matches_def get_value_def get_completed_def lower_def lower_char_def
      append_to_def bucket_def results_of_def Let_def)
  show ?thesis using f p n b by simp
qed

text \<open>
  The claim as stated fails: \<^verbatim>\<open>delete_item(" Milk ")\<close> against an empty list
  records \<^verbatim>\<open>Milk\<close> in \<^verbatim>\<open>not_found\<close>, not the normalized \<^verbatim>\<open>milk\<close>.
\<close>

theorem buckets_not_lower_cased_counterexample:
  "bucket (results_of (delete_item_results scripted (Single '' Milk '') (([Some []], []), [])))
     ''not_found'' = [''Milk''] \<and>
   normalize '' Milk '' = ''milk'' \<and>
   delete_item scripted (Single '' Milk '') (([Some []], []), []) =
     (''Not found (incomplete): Milk.'', (([], []), [Get_items (Some [])]))"
  by (simp add: delete_item_def delete_item_results_def values_to_process_def no_valid_values_def
      strip_def isspace_def call_get_def scripted_def incomplete_of_def delete_item_step_def
      find_item_def append_to_def bucket_def results_of_def normalize_def lower_def lower_char_def
      delete_item_summary_def summary_line_def render_summary_def Let_def)

section \<open>When the fetch fails\<close>

lemma find_item_Nil [simp]: "find_item [] n = None"
  by (simp add: find_item_def)

lemma delete_item_loop_no_candidates:
  "delete_item_loop api vs ([], res, w) =
     ([], foldl (\<lambda>r n. append_to r ''not_found'' n) res (names_of vs), w)"
  by (induction vs arbitrary: res) (simp_all add: names_of_def delete_item_step_def)

lemma mark_complete_loop_no_candidates:
  "mark_complete_loop api vs ([], res, w) =
     ([], foldl (\<lambda>r n. append_to r ''not_found'' n) res (names_of vs), w)"
  by (induction vs arbitrary: res) (simp_all add: names_of_def mark_complete_step_def)

lemma bucket_foldl_append_to:
  "bucket (foldl (\<lambda>r n. append_to r key n) res ns) k =
     (if k = key then bucket res k @ ns else bucket res k)"
  by (induction ns arbitrary: res) (simp_all add: bucket_append_to)

lemma call_get_None:
  "get_shopping_list_items api (fst w) = (None, s1) \<Longrightarrow>
     call_get api w = (None, (s1, snd w @ [Get_items None]))"
  by (simp add: call_get_def)

lemma render_one_line:
  "names \<noteq> [] \<Longrightarrow> render_summary (summary_line label names) = label @ join '', '' names @ ''.''"
  by (simp add: render_summary_def summary_line_def)

lemma summary_line_Nil [simp]: "summary_line label [] = []"
  by (simp add: summary_line_def)

lemma clear_loop_fetch_failed:
  assumes "get_shopping_list_items api (fst w) = (None, s1)" and "iter < max_iterations"
  shows "clear_loop api iter deleted failed w =
           (\<lparr>stopped = Fetch_failed, iteration = iter + 1, total_deleted_count = deleted,
             total_failed_items = failed\<rparr>, (s1, snd w @ [Get_items None]))"
  using assms by (simp add: clear_loop.simps[of api iter deleted failed w] call_get_None)

text \<open>
  What each tool does when the fetch answers \<open>None\<close>. No tool makes a mutate-one
  call: the world afterwards is the fetch's, with the fetch as the only new event.
  \<open>mark_incomplete\<close> and \<open>clear_completed_items\<close> test
  \<^verbatim>\<open>all_items is None\<close> and return an error string; \<open>clear_completed_items\<close>, at
  whatever iteration the fetch fails, stops there and adds the deleted count and the number
  of failures so far when there is any. \<open>delete_item\<close> and \<open>mark_complete\<close> have no
  such test: \<^verbatim>\<open>filter_incomplete_items(all_items) if all_items else []\<close> turns the
  failed fetch into an empty list of candidates, the loop runs over the whole batch, every
  non-empty stripped name is bucketed \<^verbatim>\<open>not_found\<close> and the summary is the
  \<^verbatim>\<open>Not found (incomplete)\<close> line, with no word of the failure.
\<close>

theorem fetch_failure_outcomes:
  "get_shopping_list_items api (fst w) = (None, s1) \<longrightarrow>
     (iter < max_iterations \<longrightarrow>
        clear_loop api iter deleted failed w =
          (\<lparr>stopped = Fetch_failed, iteration = iter + 1, total_deleted_count = deleted,
            total_failed_items = failed\<rparr>, (s1, snd w @ [Get_items None])) \<and>
        clear_completed_items_message
          \<lparr>stopped = Fetch_failed, iteration = iter + 1, total_deleted_count = deleted,
            total_failed_items = failed\<rparr> =
          ''Error: Could not retrieve shopping list items during clearing process.'' @
          (if deleted > 0 \<or> failed \<noteq> []
           then '' So far: Deleted '' @ str_nat deleted @ '', Failures: '' @
                str_nat (length failed) @ ''.''
           else [])) \<and>
     clear_completed_items api w =
       (''Error: Could not retrieve shopping list items during clearing process.'',
        (s1, snd w @ [Get_items None])) \<and>
     (\<not> no_valid_values (values_to_process item_values) \<longrightarrow>
        mark_incomplete api item_values w =
          (''Error: Could not retrieve shopping list items to process request.'',
           (s1, snd w @ [Get_items None])) \<and>
        delete_item api item_values w =
          (''Not found (incomplete): '' @ join '', '' (names_of (values_to_process item_values))
             @ ''.'',
           (s1, snd w @ [Get_items None])) \<and>
        bucket (results_of (delete_item_results api item_values w)) k =
          (if k = ''not_found'' then names_of (values_to_process item_values) else []) \<and>
        mark_complete api item_values w =
          (''Not found (incomplete): '' @ join '', '' (names_of (values_to_process item_values))
             @ ''.'',
           (s1, snd w @ [Get_items None])) \<and>
        bucket (results_of (mark_complete_results api item_values w)) k =
          (if k = ''not_found'' then names_of (values_to_process item_values) else []))"
proof (intro impI conjI)
  assume f: "get_shopping_list_items api (fst w) = (None, s1)"
  note g = call_get_None[OF f]
  show "clear_completed_items api w =
       (''Error: Could not retrieve shopping list items during clearing process.'',
        (s1, snd w @ [Get_items None]))"
    using clear_loop_fetch_failed[OF f, of 0 0 "[]"]
    by (simp add: clear_completed_items_def clear_completed_items_outcome_def
        clear_completed_items_message_def max_iterations_def)
  {
    assume "iter < max_iterations"
    then show "clear_loop api iter deleted failed w =
          (\<lparr>stopped = Fetch_failed, iteration = iter + 1, total_deleted_count = deleted,
            total_failed_items = failed\<rparr>, (s1, snd w @ [Get_items None]))"
      by (rule clear_loop_fetch_failed[OF f])
    show "clear_completed_items_message
          \<lparr>stopped = Fetch_failed, iteration = iter + 1, total_deleted_count = deleted,
            total_failed_items = failed\<rparr> =
          ''Error: Could not retrieve shopping list items during clearing process.'' @
          (if deleted > 0 \<or> failed \<noteq> []
           then '' So far: Deleted '' @ str_nat deleted @ '', Failures: '' @
                str_nat (length failed) @ ''.''
           else [])"
      by (simp add: clear_completed_items_message_def)
  }
  assume v: "\<not> no_valid_values (values_to_process item_values)"
  then have ne: "names_of (values_to_process item_values) \<noteq> []"
    by (simp add: names_of_Nil_iff)
  show "mark_incomplete api item_values w =
          (''Error: Could not retrieve shopping list items to process request.'',
           (s1, snd w @ [Get_items None]))"
    using v g by (simp add: mark_incomplete_def mark_incomplete_results_def)
  have d: "delete_item_results api item_values w =
      (Inr (foldl (\<lambda>r n. append_to r ''not_found'' n)
              [''deleted'' \<mapsto> [], ''not_found'' \<mapsto> [], ''missing_id'' \<mapsto> [], ''failed'' \<mapsto> []]
              (names_of (values_to_process item_values))),
       (s1, snd w @ [Get_items None]))"
    using v g
    by (simp add: delete_item_results_def incomplete_of_def delete_item_loop_no_candidates)
  have m: "mark_complete_results api item_values w =
      (Inr (foldl (\<lambda>r n. append_to r ''not_found'' n)
              [''marked'' \<mapsto> [], ''not_found'' \<mapsto> [], ''already_complete'' \<mapsto> [], ''failed'' \<mapsto> []]
              (names_of (values_to_process item_values))),
       (s1, snd w @ [Get_items None]))"
    using v g
    by (simp add: mark_complete_results_def incomplete_of_def mark_complete_loop_no_candidates)
  have bd: "bucket (results_of (delete_item_results api item_values w)) k =
          (if k = ''not_found'' then names_of (values_to_process item_values) else [])" for k
    unfolding d by (simp add: bucket_foldl_append_to) (simp add: bucket_def)
  have bm: "bucket (results_of (mark_complete_results api item_values w)) k =
          (if k = ''not_found'' then names_of (values_to_process item_values) else [])" for k
    unfolding m by (simp add: bucket_foldl_append_to) (simp add: bucket_def)
  show "bucket (results_of (delete_item_results api item_values w)) k =
          (if k = ''not_found'' then names_of (values_to_process item_values) else [])"
    by (rule bd)
  show "bucket (results_of (mark_complete_results api item_values w)) k =
          (if k = ''not_found'' then names_of (values_to_process item_values) else [])"
    by (rule bm)
  have rd: "delete_item api item_values w =
      (delete_item_summary (results_of (delete_item_results api item_values w)),
       (s1, snd w @ [Get_items None]))"
    unfolding delete_item_def d by simp
  have rm: "mark_complete api item_values w =
      (mark_complete_summary (results_of (mark_complete_results api item_values w)),
       (s1, snd w @ [Get_items None]))"
    unfolding mark_complete_def m by simp
  show "delete_item api item_values w =
          (''Not found (incomplete): '' @ join '', '' (names_of (values_to_process item_values))
             @ ''.'',
           (s1, snd w @ [Get_items None]))"
    unfolding rd delete_item_summary_def bd
    using render_one_line[OF ne, of "''Not found (incomplete): ''"] by simp
  show "mark_complete api item_values w =
          (''Not found (incomplete): '' @ join '', '' (names_of (values_to_process item_values))
             @ ''.'',
           (s1, snd w @ [Get_items None]))"
    unfolding rm mark_complete_summary_def bm
    using render_one_line[OF ne, of "''Not found (incomplete): ''"] by simp
qed

theorem fetch_failure_outcomes_witness:
  "get_shopping_list_items scripted ([None], [True]) = (None, ([], [True])) \<and>
   (3 :: nat) < max_iterations \<and>
   \<not> no_valid_values (values_to_process (Many [''milk'', '' Eggs ''])) \<and>
   clear_loop scripted 3 2 [''Bread''] (([None], [True]), []) =
     (\<lparr>stopped = Fetch_failed, iteration = 4, total_deleted_count = 2,
       total_failed_items = [''Bread'']\<rparr>, (([], [True]), [Get_items None])) \<and>
   clear_completed_items_message
     \<lparr>stopped = Fetch_failed, iteration = 4, total_deleted_count = 2,
       total_failed_items = [''Bread'']\<rparr> =
     ''Error: Could not retrieve shopping list items during clearing process. So far: Deleted 2, Failures: 1.'' \<and>
   clear_completed_items scripted (([None], [True]), []) =
     (''Error: Could not retrieve shopping list items during clearing process.'',
      (([], [True]), [Get_items None])) \<and>
   mark_incomplete scripted (Many [''milk'', '' Eggs '']) (([None], [True]), []) =
     (''Error: Could not retrieve shopping list items to process request.'',
      (([], [True]), [Get_items None])) \<and>
   delete_item scripted (Many [''milk'', '' Eggs '']) (([None], [True]), []) =
     (''Not found (incomplete): milk, Eggs.'', (([], [True]), [Get_items None])) \<and>
   mark_complete scripted (Many [''milk'', '' Eggs '']) (([None], [True]), []) =
     (''Not found (incomplete): milk, Eggs.'', (([], [True]), [Get_items None]))"
proof -
  have f: "get_shopping_list_items scripted (fst (([None], [True]), [])) = (None, ([], [True]))"
    by (simp add: scripted_def)
  have i: "(3 :: nat) < max_iterations" by (simp add: max_iterations_def)
  have v: "\<not> no_valid_values (values_to_process (Many [''milk'', '' Eggs '']))"
    by (simp add: no_valid_values_def values_to_process_def strip_def isspace_def)
  have n: "names_of (values_to_process (Many [''milk'', '' Eggs ''])) = [''milk'', ''Eggs'']"
    by (simp add: names_of_def values_to_process_def strip_def isspace_def)
  from fetch_failure_outcomes
    [of scripted "(([None], [True]), [])" "([], [True])" 3 2 "[''Bread'']"
        "Many [''milk'', '' Eggs '']" "''not_found''"] f i v
  show ?thesis unfolding n by (simp add: digit_char_def)
qed

text \<open>
  Claim C1. A failed fetch is to be surfaced as an error string and the batch aborted, no
  name bucketed. \<open>mark_incomplete\<close> and \<open>clear_completed_items\<close> do so;
  \<open>delete_item\<close> and \<open>mark_complete\<close> do not. With a fetch that answers \<open>None\<close>,
  \<^verbatim>\<open>delete_item("milk")\<close> returns \<^verbatim>\<open>Not found (incomplete): milk.\<close>, the
  name bucketed in \<^verbatim>\<open>not_found\<close>, and so does \<open>mark_complete\<close>: the caller is told
  that the item is not on the list when the list could not be read. On the same fetch
  \<open>mark_incomplete\<close> and \<open>clear_completed_items\<close> return their error strings.
\<close>

theorem fetch_failure_counterexample:
  "get_shopping_list_items scripted ([None], [True]) = (None, ([], [True])) \<and>
   delete_item scripted (Single ''milk'') (([None], [True]), []) =
     (''Not found (incomplete): milk.'', (([], [True]), [Get_items None])) \<and>
   bucket (results_of (delete_item_results scripted (Single ''milk'') (([None], [True]), [])))
     ''not_found'' = [''milk''] \<and>
   mark_complete scripted (Single ''milk'') (([None], [True]), []) =
     (''Not found (incomplete): milk.'', (([], [True]), [Get_items None])) \<and>
   bucket (results_of (mark_complete_results scripted (Single ''milk'') (([None], [True]), [])))
     ''not_found'' = [''milk''] \<and>
   mark_incomplete scripted (Single ''milk'') (([None], [True]), []) =
     (''Error: Could not retrieve shopping list items to process request.'',
      (([], [True]), [Get_items None])) \<and>
   clear_completed_items scripted (([None], [True]), []) =
     (''Error: Could not retrieve shopping list items during clearing process.'',
      (([], [True]), [Get_items None]))"
proof -
  have d: "get_shopping_list_items scripted ([None], [True]) = (None, ([], [True])) \<and>
      delete_item scripted (Single ''milk'') (([None], [True]), []) =
        (''Not found (incomplete): milk.'', (([], [True]), [Get_items None])) \<and>
      bucket (results_of (delete_item_results scripted (Single ''milk'') (([None], [True]), [])))
        ''not_found'' = [''milk'']"
    by (simp add: delete_item_def delete_item_results_def values_to_process_def
        no_valid_values_def strip_def isspace_def call_get_def scripted_def incomplete_of_def
        delete_item_step_def find_item_def append_to_def bucket_def results_of_def
        delete_item_summary_def summary_line_def render_summary_def Let_def)
  have m: "mark_complete scripted (Single ''milk'') (([None], [True]), []) =
        (''Not found (incomplete): milk.'', (([], [True]), [Get_items None])) \<and>
      bucket (results_of (mark_complete_results scripted (Single ''milk'') (([None], [True]), [])))
        ''not_found'' = [''milk'']"
    by (simp add: mark_complete_def mark_complete_results_def values_to_process_def
        no_valid_values_def strip_def isspace_def call_get_def scripted_def incomplete_of_def
        mark_complete_step_def find_item_def append_to_def bucket_def results_of_def
        mark_complete_summary_def summary_line_def render_summary_def Let_def)
  have u: "mark_incomplete scripted (Single ''milk'') (([None], [True]), []) =
        (''Error: Could not retrieve shopping list items to process request.'',
         (([], [True]), [Get_items None]))"
    by (simp add: mark_incomplete_def mark_incomplete_results_def values_to_process_def
        no_valid_values_def strip_def isspace_def call_get_def scripted_def)
  have c: "clear_completed_items scripted (([None], [True]), []) =
        (''Error: Could not retrieve shopping list items during clearing process.'',
         (([], [True]), [Get_items None]))"
    by code_simp
  from d m u c show ?thesis by simp
qed

section \<open>The loops of delete_item and mark_complete, name by name\<close>

lemma delete_item_step_match:
  "delete_item_step api =
     match_step no_id ''missing_id'' ''deleted'' (delete_shopping_list_item api) Delete_item"
  by (rule ext, rule ext)
     (auto simp: delete_item_step_def match_step_def call_delete_def Let_def
        split: prod.splits option.splits)

lemma mark_complete_step_match:
  "mark_complete_step api =
     match_step get_completed ''already_complete'' ''marked'' (mark_item_as_completed api)
       Mark_completed"
  by (rule ext, rule ext)
     (auto simp: mark_complete_step_def match_step_def call_mark_def Let_def
        split: prod.splits option.splits)

lemma delete_item_loop_match:
  "delete_item_loop api vs st =
     match_loop no_id ''missing_id'' ''deleted'' (delete_shopping_list_item api) Delete_item vs st"
  by (induction vs arbitrary: st) (simp_all add: delete_item_step_match)

lemma mark_complete_loop_match:
  "mark_complete_loop api vs st =
     match_loop get_completed ''already_complete'' ''marked'' (mark_item_as_completed api)
       Mark_completed vs st"
  by (induction vs arbitrary: st) (simp_all add: mark_complete_step_match)

lemma match_step_cases:
  assumes "match_step skip skipped succeeded call ev v (pool, res, w) = (pool', res', w')"
  shows "(strip v = [] \<and> pool' = pool \<and> res' = res \<and> w' = w) \<or>
         (strip v \<noteq> [] \<and> find_item pool (strip v) = None \<and> pool' = pool \<and>
            res' = append_to res ''not_found'' (strip v) \<and> w' = w) \<or>
         (strip v \<noteq> [] \<and> (\<exists>it. find_item pool (strip v) = Some it \<and> skip it) \<and> pool' = pool \<and>
            res' = append_to res skipped (strip v) \<and> w' = w) \<or>
         (strip v \<noteq> [] \<and>
            (\<exists>it s'. find_item pool (strip v) = Some it \<and> \<not> skip it \<and>
               call it (fst w) = (True, s') \<and> w' = (s', snd w @ [ev it True]) \<and>
               pool' = remove1 it pool \<and> res' = append_to res succeeded (strip v))) \<or>
         (strip v \<noteq> [] \<and>
            (\<exists>it s'. find_item pool (strip v) = Some it \<and> \<not> skip it \<and>
               call it (fst w) = (False, s') \<and> w' = (s', snd w @ [ev it False]) \<and>
               pool' = pool \<and> res' = append_to res ''failed'' (strip v)))"
  using assms
  by (auto simp: match_step_def split: if_splits prod.splits option.splits)

lemma matches_same_name: "same_name n m \<Longrightarrow> matches m = matches n"
  by (rule ext) (simp add: matches_def same_name_def)

lemma find_item_same_name: "same_name n m \<Longrightarrow> find_item pool m = find_item pool n"
  by (simp add: find_item_def matches_same_name)

lemma matches_both: "matches m x \<Longrightarrow> matches n x \<Longrightarrow> same_name n m"
  by (simp add: matches_def same_name_def)

lemma find_item_SomeD: "find_item pool n = Some it \<Longrightarrow> it \<in> set pool \<and> matches n it"
  unfolding find_item_def by (metis find_Some_iff nth_mem)

lemma find_item_None_iff: "find_item pool n = None \<longleftrightarrow> (\<forall>it \<in> set pool. \<not> matches n it)"
  unfolding find_item_def by (auto simp: find_None_iff)

lemma find_item_filter:
  "find_item pool n = (case filter (matches n) pool of [] \<Rightarrow> None | x # xs \<Rightarrow> Some x)"
  unfolding find_item_def by (induction pool) auto

lemma find_item_remove1:
  "find_item pool n = Some it \<Longrightarrow> x \<noteq> it \<Longrightarrow> find_item (remove1 x pool) n = Some it"
  unfolding find_item_def by (induction pool) (auto split: if_splits)

lemma filter_bucket_append_to:
  "filter P (bucket (append_to res key m) k) =
     filter P (bucket res k) @ (if k = key \<and> P m then [m] else [])"
  by (simp add: bucket_append_to)

lemma names_of_Cons:
  "names_of (v # vs) = (if strip v \<noteq> [] then [strip v] else []) @ names_of vs"
  by (simp add: names_of_def)

lemma calls_on_Nil [simp]: "calls_on n [] = []"
  by (simp add: calls_on_def)

lemma calls_on_append [simp]: "calls_on n (xs @ ys) = calls_on n xs @ calls_on n ys"
  by (simp add: calls_on_def)

lemma calls_on_single:
  "mutated_item e = Some x \<Longrightarrow> calls_on n [e] = (if matches n x then [e] else [])"
  by (simp add: calls_on_def)

text \<open>One step, when no candidate matches the name \<open>n\<close>.\<close>

lemma match_step_no_match:
  assumes s: "match_step skip skipped succeeded call ev v (pool, res, w) = (pool', res', w')"
    and mi: "\<And>x ok. mutated_item (ev x ok) = Some x"
    and no: "\<forall>x \<in> set pool. \<not> matches n x"
  shows "(\<forall>x \<in> set pool'. \<not> matches n x) \<and>
         (\<forall>k. filter (same_name n) (bucket res' k) =
               filter (same_name n) (bucket res k) @
               (if k = ''not_found'' then filter (same_name n) (names_of [v]) else [])) \<and>
         (\<exists>evs. snd w' = snd w @ evs \<and> calls_on n evs = [])"
proof -
  have other: "\<not> same_name n (strip v)" if "find_item pool (strip v) = Some it" for it
  proof
    assume "same_name n (strip v)"
    then have "matches n it" using find_item_SomeD[OF that] by (simp add: matches_same_name)
    with no find_item_SomeD[OF that] show False by blast
  qed
  have sub: "\<forall>x \<in> set (remove1 it pool). \<not> matches n x" for it
    using no by (meson notin_set_remove1)
  from match_step_cases[OF s] show ?thesis
  proof (elim disjE conjE exE)
    assume "strip v = []" "pool' = pool" "res' = res" "w' = w"
    with no show ?thesis by (simp add: names_of_def)
  next
    assume "strip v \<noteq> []" "pool' = pool" "res' = append_to res ''not_found'' (strip v)" "w' = w"
    with no show ?thesis by (simp add: names_of_def filter_bucket_append_to)
  next
    fix it
    assume "strip v \<noteq> []" "find_item pool (strip v) = Some it" "pool' = pool"
      "res' = append_to res skipped (strip v)" "w' = w"
    with no other[of it] show ?thesis by (simp add: names_of_def filter_bucket_append_to)
  next
    fix it s'
    assume a: "strip v \<noteq> []" "find_item pool (strip v) = Some it"
      "w' = (s', snd w @ [ev it True])" "pool' = remove1 it pool"
      "res' = append_to res succeeded (strip v)"
    have "\<not> matches n it" using no find_item_SomeD[OF a(2)] by blast
    then have "calls_on n [ev it True] = []" by (simp add: calls_on_single[OF mi])
    with a sub[of it] other[of it] show ?thesis
      by (simp add: names_of_def filter_bucket_append_to)
  next
    fix it s'
    assume a: "strip v \<noteq> []" "find_item pool (strip v) = Some it"
      "w' = (s', snd w @ [ev it False])" "pool' = pool"
      "res' = append_to res ''failed'' (strip v)"
    have "\<not> matches n it" using no find_item_SomeD[OF a(2)] by blast
    then have "calls_on n [ev it False] = []" by (simp add: calls_on_single[OF mi])
    with a no other[of it] show ?thesis
      by (simp add: names_of_def filter_bucket_append_to)
  qed
qed

lemma match_loop_no_match:
  assumes "match_loop skip skipped succeeded call ev vs (pool, res, w) = (pool', res', w')"
    and mi: "\<And>x ok. mutated_item (ev x ok) = Some x"
    and "\<forall>x \<in> set pool. \<not> matches n x"
  shows "(\<forall>x \<in> set pool'. \<not> matches n x) \<and>
         (\<forall>k. filter (same_name n) (bucket res' k) =
               filter (same_name n) (bucket res k) @
               (if k = ''not_found'' then filter (same_name n) (names_of vs) else [])) \<and>
         (\<exists>evs. snd w' = snd w @ evs \<and> calls_on n evs = [])"
  using assms(1,3)
proof (induction vs arbitrary: pool res w)
  case Nil
  then show ?case by (simp add: names_of_def)
next
  case (Cons v vs)
  obtain p1 r1 w1 where s: "match_step skip skipped succeeded call ev v (pool, res, w) = (p1, r1, w1)"
    by (metis prod_cases3)
  from match_step_no_match[OF s mi Cons.prems(2)] obtain evs1 where
    s1: "\<forall>x \<in> set p1. \<not> matches n x"
        "\<forall>k. filter (same_name n) (bucket r1 k) =
               filter (same_name n) (bucket res k) @
               (if k = ''not_found'' then filter (same_name n) (names_of [v]) else [])"
        "snd w1 = snd w @ evs1" "calls_on n evs1 = []"
    by blast
  have "match_loop skip skipped succeeded call ev vs (p1, r1, w1) = (pool', res', w')"
    using Cons.prems(1) s by simp
  from Cons.IH[OF this s1(1)] obtain evs2 where
    s2: "\<forall>x \<in> set pool'. \<not> matches n x"
        "\<forall>k. filter (same_name n) (bucket res' k) =
               filter (same_name n) (bucket r1 k) @
               (if k = ''not_found'' then filter (same_name n) (names_of vs) else [])"
        "snd w' = snd w1 @ evs2" "calls_on n evs2 = []"
    by blast
  have n: "names_of (v # vs) = names_of [v] @ names_of vs" by (simp add: names_of_def)
  show ?case
  proof (intro conjI allI)
    show "\<forall>x \<in> set pool'. \<not> matches n x" by (rule s2(1))
    show "filter (same_name n) (bucket res' k) =
               filter (same_name n) (bucket res k) @
               (if k = ''not_found'' then filter (same_name n) (names_of (v # vs)) else [])" for k
      using s1(2) s2(2) by (simp add: n)
    show "\<exists>evs. snd w' = snd w @ evs \<and> calls_on n evs = []"
      using s1(3,4) s2(3,4) by (intro exI[of _ "evs1 @ evs2"]) simp
  qed
qed

lemma filter_remove1_other: "\<not> P x \<Longrightarrow> filter P (remove1 x xs) = filter P xs"
  by (induction xs) auto

lemma filter_remove1_only: "filter P xs = [x] \<Longrightarrow> filter P (remove1 x xs) = []"
  by (simp add: filter_remove1)

text \<open>One step on a name that is no occurrence of \<open>n\<close>: the candidates matching \<open>n\<close> stay.\<close>

lemma match_step_other_name:
  assumes s: "match_step skip skipped succeeded call ev v (pool, res, w) = (pool', res', w')"
    and mi: "\<And>x ok. mutated_item (ev x ok) = Some x"
    and other: "strip v = [] \<or> \<not> same_name n (strip v)"
  shows "filter (matches n) pool' = filter (matches n) pool \<and>
         (\<forall>k. filter (same_name n) (bucket res' k) = filter (same_name n) (bucket res k)) \<and>
         (\<exists>evs. snd w' = snd w @ evs \<and> calls_on n evs = [])"
proof -
  have nm: "\<not> matches n it" if "find_item pool (strip v) = Some it" "strip v \<noteq> []" for it
    using that other find_item_SomeD[OF that(1)] matches_both[of "strip v" it n] by blast
  from match_step_cases[OF s] show ?thesis
  proof (elim disjE conjE exE)
    assume "strip v = []" "pool' = pool" "res' = res" "w' = w"
    then show ?thesis by simp
  next
    assume "strip v \<noteq> []" "pool' = pool" "res' = append_to res ''not_found'' (strip v)" "w' = w"
    with other show ?thesis by (simp add: filter_bucket_append_to)
  next
    fix it
    assume "strip v \<noteq> []" "pool' = pool" "res' = append_to res skipped (strip v)" "w' = w"
    with other show ?thesis by (simp add: filter_bucket_append_to)
  next
    fix it s'
    assume a: "strip v \<noteq> []" "find_item pool (strip v) = Some it"
      "w' = (s', snd w @ [ev it True])" "pool' = remove1 it pool"
      "res' = append_to res succeeded (strip v)"
    have "calls_on n [ev it True] = []" using nm[OF a(2,1)] by (simp add: calls_on_single[OF mi])
    with a other nm[OF a(2,1)] show ?thesis
      by (simp add: filter_bucket_append_to filter_remove1_other)
  next
    fix it s'
    assume a: "strip v \<noteq> []" "find_item pool (strip v) = Some it"
      "w' = (s', snd w @ [ev it False])" "pool' = pool"
      "res' = append_to res ''failed'' (strip v)"
    have "calls_on n [ev it False] = []" using nm[OF a(2,1)] by (simp add: calls_on_single[OF mi])
    with a other show ?thesis by (simp add: filter_bucket_append_to)
  qed
qed

text \<open>The first match of \<open>n\<close> is skipped: every occurrence of \<open>n\<close> lands in the bucket
  of the skipped names, and no call is made on an item matching \<open>n\<close>.\<close>

lemma match_loop_skipped:
  assumes "match_loop skip skipped succeeded call ev vs (pool, res, w) = (pool', res', w')"
    and mi: "\<And>x ok. mutated_item (ev x ok) = Some x"
    and "find_item pool n = Some it" and sk: "skip it"
  shows "find_item pool' n = Some it \<and>
         (\<forall>k. filter (same_name n) (bucket res' k) =
               filter (same_name n) (bucket res k) @
               (if k = skipped then filter (same_name n) (names_of vs) else [])) \<and>
         (\<exists>evs. snd w' = snd w @ evs \<and> calls_on n evs = [])"
  using assms(1,3)
proof (induction vs arbitrary: pool res w)
  case Nil
  then show ?case by (simp add: names_of_def)
next
  case (Cons v vs)
  obtain p1 r1 w1 where s: "match_step skip skipped succeeded call ev v (pool, res, w) = (p1, r1, w1)"
    by (metis prod_cases3)
  have rest: "match_loop skip skipped succeeded call ev vs (p1, r1, w1) = (pool', res', w')"
    using Cons.prems(1) s by simp
  have step: "find_item p1 n = Some it \<and>
         (\<forall>k. filter (same_name n) (bucket r1 k) =
               filter (same_name n) (bucket res k) @
               (if k = skipped then filter (same_name n) (names_of [v]) else [])) \<and>
         (\<exists>evs. snd w1 = snd w @ evs \<and> calls_on n evs = [])"
  proof (cases "strip v \<noteq> [] \<and> same_name n (strip v)")
    case True
    then have f: "find_item pool (strip v) = Some it"
      using Cons.prems(2) find_item_same_name[of n "strip v" pool] by simp
    with True sk s have "p1 = pool" "r1 = append_to res skipped (strip v)" "w1 = w"
      by (simp_all add: match_step_def)
    with True Cons.prems(2) show ?thesis
      by (simp add: names_of_def filter_bucket_append_to)
  next
    case False
    then have o: "strip v = [] \<or> \<not> same_name n (strip v)" by blast
    from match_step_other_name[OF s mi o]
    have k: "filter (matches n) p1 = filter (matches n) pool"
        "\<forall>k. filter (same_name n) (bucket r1 k) = filter (same_name n) (bucket res k)"
        "\<exists>evs. snd w1 = snd w @ evs \<and> calls_on n evs = []"
      by blast+
    have "find_item p1 n = Some it"
      using Cons.prems(2) k(1) by (simp add: find_item_filter)
    with k(2,3) False show ?thesis by (auto simp: names_of_def)
  qed
  then obtain evs1 where
    s1: "find_item p1 n = Some it"
        "\<forall>k. filter (same_name n) (bucket r1 k) =
               filter (same_name n) (bucket res k) @
               (if k = skipped then filter (same_name n) (names_of [v]) else [])"
        "snd w1 = snd w @ evs1" "calls_on n evs1 = []"
    by blast
  from Cons.IH[OF rest s1(1)] obtain evs2 where
    s2: "find_item pool' n = Some it"
        "\<forall>k. filter (same_name n) (bucket res' k) =
               filter (same_name n) (bucket r1 k) @
               (if k = skipped then filter (same_name n) (names_of vs) else [])"
        "snd w' = snd w1 @ evs2" "calls_on n evs2 = []"
    by blast
  have n: "names_of (v # vs) = names_of [v] @ names_of vs" by (simp add: names_of_def)
  show ?case
  proof (intro conjI allI)
    show "find_item pool' n = Some it" by (rule s2(1))
    show "filter (same_name n) (bucket res' k) =
               filter (same_name n) (bucket res k) @
               (if k = skipped then filter (same_name n) (names_of (v # vs)) else [])" for k
      using s1(2) s2(2) by (simp add: n)
    show "\<exists>evs. snd w' = snd w @ evs \<and> calls_on n evs = []"
      using s1(3,4) s2(3,4) by (intro exI[of _ "evs1 @ evs2"]) simp
  qed
qed

lemma match_loop_extends:
  assumes "match_loop skip skipped succeeded call ev vs (pool, res, w) = (pool', res', w')"
  shows "(\<exists>evs. snd w' = snd w @ evs) \<and> (\<forall>k. \<exists>ms. bucket res' k = bucket res k @ ms)"
  using assms
proof (induction vs arbitrary: pool res w)
  case Nil
  then show ?case by simp
next
  case (Cons v vs)
  obtain p1 r1 w1 where s: "match_step skip skipped succeeded call ev v (pool, res, w) = (p1, r1, w1)"
    by (metis prod_cases3)
  have rest: "match_loop skip skipped succeeded call ev vs (p1, r1, w1) = (pool', res', w')"
    using Cons.prems(1) s by simp
  have "(\<exists>evs. snd w1 = snd w @ evs) \<and> (\<forall>k. \<exists>ms. bucket r1 k = bucket res k @ ms)"
    using match_step_cases[OF s] by (auto simp: bucket_append_to)
  with Cons.IH[OF rest] show ?case by (metis append.assoc)
qed

lemma match_loop_never_skipped:
  assumes "match_loop skip skipped succeeded call ev vs (pool, res, w) = (pool', res', w')"
    and "\<forall>x \<in> set pool. \<not> skip x"
    and k: "skipped \<noteq> ''not_found''" "skipped \<noteq> succeeded" "skipped \<noteq> ''failed''"
  shows "bucket res' skipped = bucket res skipped"
  using assms(1,2)
proof (induction vs arbitrary: pool res w)
  case Nil
  then show ?case by simp
next
  case (Cons v vs)
  obtain p1 r1 w1 where s: "match_step skip skipped succeeded call ev v (pool, res, w) = (p1, r1, w1)"
    by (metis prod_cases3)
  have rest: "match_loop skip skipped succeeded call ev vs (p1, r1, w1) = (pool', res', w')"
    using Cons.prems(1) s by simp
  have "(\<forall>x \<in> set p1. \<not> skip x) \<and> bucket r1 skipped = bucket res skipped"
    using match_step_cases[OF s] Cons.prems(2) k
    by (auto simp: bucket_append_to dest: find_item_SomeD notin_set_remove1)
  with Cons.IH[OF rest] show ?case by simp
qed

lemma incomplete_of_not_completed: "x \<in> set (incomplete_of r) \<Longrightarrow> \<not> get_completed x"
  by (auto simp: incomplete_of_def filter_incomplete_items_def split: option.splits if_splits)

lemma incomplete_of_subset: "x \<in> set (incomplete_of (Some items)) \<Longrightarrow> x \<in> set items"
  by (auto simp: incomplete_of_def filter_incomplete_items_def split: if_splits)

lemma same_name_refl [simp]: "same_name n n"
  by (simp add: same_name_def)

lemma valid_values: "v \<in> set vs \<Longrightarrow> strip v \<noteq> [] \<Longrightarrow> \<not> no_valid_values vs"
  by (auto simp: no_valid_values_iff)

lemma occurrence_in_names: "v \<in> set vs \<Longrightarrow> strip v \<noteq> [] \<Longrightarrow>
    strip v \<in> set (filter (same_name (strip v)) (names_of vs))"
  by (auto simp: names_of_def)

text \<open>The outcome of \<open>mark_complete\<close> and of \<open>delete_item\<close>, as the outcome of their loop.\<close>

lemma mark_complete_results_loop:
  assumes "\<not> no_valid_values (values_to_process item_values)"
    and "get_shopping_list_items api (fst w) = (all_items, s1)"
  obtains pool' res' w' where
    "match_loop get_completed ''already_complete'' ''marked'' (mark_item_as_completed api)
       Mark_completed (values_to_process item_values)
       (incomplete_of all_items,
        [''marked'' \<mapsto> [], ''not_found'' \<mapsto> [], ''already_complete'' \<mapsto> [], ''failed'' \<mapsto> []],
        (s1, snd w @ [Get_items all_items])) = (pool', res', w')"
    and "mark_complete_results api item_values w = (Inr res', w')"
proof -
  obtain pool' res' w' where l: "mark_complete_loop api (values_to_process item_values)
       (incomplete_of all_items,
        [''marked'' \<mapsto> [], ''not_found'' \<mapsto> [], ''already_complete'' \<mapsto> [], ''failed'' \<mapsto> []],
        (s1, snd w @ [Get_items all_items])) = (pool', res', w')"
    by (metis prod_cases3)
  have "mark_complete_results api item_values w = (Inr res', w')"
    using assms l by (simp add: mark_complete_results_def call_get_def)
  with l that show thesis by (simp add: mark_complete_loop_match)
qed

lemma delete_item_results_loop:
  assumes "\<not> no_valid_values (values_to_process item_values)"
    and "get_shopping_list_items api (fst w) = (all_items, s1)"
  obtains pool' res' w' where
    "match_loop no_id ''missing_id'' ''deleted'' (delete_shopping_list_item api)
       Delete_item (values_to_process item_values)
       (incomplete_of all_items,
        [''deleted'' \<mapsto> [], ''not_found'' \<mapsto> [], ''missing_id'' \<mapsto> [], ''failed'' \<mapsto> []],
        (s1, snd w @ [Get_items all_items])) = (pool', res', w')"
    and "delete_item_results api item_values w = (Inr res', w')"
proof -
  obtain pool' res' w' where l: "delete_item_loop api (values_to_process item_values)
       (incomplete_of all_items,
        [''deleted'' \<mapsto> [], ''not_found'' \<mapsto> [], ''missing_id'' \<mapsto> [], ''failed'' \<mapsto> []],
        (s1, snd w @ [Get_items all_items])) = (pool', res', w')"
    by (metis prod_cases3)
  have "delete_item_results api item_values w = (Inr res', w')"
    using assms l by (simp add: delete_item_results_def call_get_def)
  with l that show thesis by (simp add: delete_item_loop_match)
qed

lemma new_events_fetch:
  "snd w' = (snd w @ [Get_items r]) @ evs \<Longrightarrow> new_events w w' = Get_items r # evs"
  by (simp add: new_events_def)

lemma calls_on_fetch [simp]: "calls_on n (Get_items r # evs) = calls_on n evs"
  by (simp add: calls_on_def)

lemma bucket_mark_complete_init [simp]:
  "bucket [''marked'' \<mapsto> [], ''not_found'' \<mapsto> [], ''already_complete'' \<mapsto> [], ''failed'' \<mapsto> []] k = []"
  by (simp add: bucket_def)

lemma bucket_delete_item_init [simp]:
  "bucket [''deleted'' \<mapsto> [], ''not_found'' \<mapsto> [], ''missing_id'' \<mapsto> [], ''failed'' \<mapsto> []] k = []"
  by (simp add: bucket_def)

section \<open>mark_complete and an item that is already completed\<close>

text \<open>
  Claim C2, as the code has it. The candidates of \<open>mark_complete\<close> are the incomplete
  items of the snapshot, so the check on the match's \<^verbatim>\<open>completed\<close> flag never fires:
  the bucket \<^verbatim>\<open>already_complete\<close> is empty after every batch. A name whose matching
  items of the snapshot are all completed has no candidate: every occurrence of it in the
  batch is bucketed \<^verbatim>\<open>not_found\<close>, none is bucketed \<^verbatim>\<open>marked\<close>, and no mutate-one
  call is made on an item matching it.
\<close>

theorem mark_complete_completed_item_not_found:
  "bucket (results_of (mark_complete_results api item_values w)) ''already_complete'' = [] \<and>
   (get_shopping_list_items api (fst w) = (Some items, s1) \<and>
    v \<in> set (values_to_process item_values) \<and> strip v \<noteq> [] \<and>
    (\<forall>it \<in> set items. matches (strip v) it \<longrightarrow> get_completed it) \<longrightarrow>
      strip v \<in> set (bucket (results_of (mark_complete_results api item_values w)) ''not_found'') \<and>
      filter (same_name (strip v))
        (bucket (results_of (mark_complete_results api item_values w)) ''not_found'') =
        filter (same_name (strip v)) (names_of (values_to_process item_values)) \<and>
      filter (same_name (strip v))
        (bucket (results_of (mark_complete_results api item_values w)) ''marked'') = [] \<and>
      calls_on (strip v) (new_events w (snd (mark_complete_results api item_values w))) = [])"
proof (intro conjI impI)
  show "bucket (results_of (mark_complete_results api item_values w)) ''already_complete'' = []"
  proof (cases "no_valid_values (values_to_process item_values)")
    case True
    then show ?thesis by (simp add: mark_complete_results_def)
  next
    case False
    obtain all_items s1 where g: "get_shopping_list_items api (fst w) = (all_items, s1)"
      by (cases "get_shopping_list_items api (fst w)")
    from mark_complete_results_loop[OF False g] obtain pool' res' w' where
      l: "match_loop get_completed ''already_complete'' ''marked'' (mark_item_as_completed api)
       Mark_completed (values_to_process item_values)
       (incomplete_of all_items,
        [''marked'' \<mapsto> [], ''not_found'' \<mapsto> [], ''already_complete'' \<mapsto> [], ''failed'' \<mapsto> []],
        (s1, snd w @ [Get_items all_items])) = (pool', res', w')"
      and r: "mark_complete_results api item_values w = (Inr res', w')"
      by blast
    have "\<forall>x \<in> set (incomplete_of all_items). \<not> get_completed x"
      by (simp add: incomplete_of_not_completed)
    from match_loop_never_skipped[OF l this] show ?thesis
      unfolding r by simp
  qed
next
  assume h: "get_shopping_list_items api (fst w) = (Some items, s1) \<and>
    v \<in> set (values_to_process item_values) \<and> strip v \<noteq> [] \<and>
    (\<forall>it \<in> set items. matches (strip v) it \<longrightarrow> get_completed it)"
  then have g: "get_shopping_list_items api (fst w) = (Some items, s1)"
    and v: "v \<in> set (values_to_process item_values)" "strip v \<noteq> []"
    and c: "\<forall>it \<in> set items. matches (strip v) it \<longrightarrow> get_completed it"
    by blast+
  from mark_complete_results_loop[OF valid_values[OF v] g] obtain pool' res' w' where
    l: "match_loop get_completed ''already_complete'' ''marked'' (mark_item_as_completed api)
       Mark_completed (values_to_process item_values)
       (incomplete_of (Some items),
        [''marked'' \<mapsto> [], ''not_found'' \<mapsto> [], ''already_complete'' \<mapsto> [], ''failed'' \<mapsto> []],
        (s1, snd w @ [Get_items (Some items)])) = (pool', res', w')"
    and r: "mark_complete_results api item_values w = (Inr res', w')"
    by blast
  have no: "\<forall>x \<in> set (incomplete_of (Some items)). \<not> matches (strip v) x"
    using c incomplete_of_not_completed incomplete_of_subset by blast
  from match_loop_no_match[OF l _ no] obtain evs where
    f: "\<forall>k. filter (same_name (strip v)) (bucket res' k) =
             filter (same_name (strip v))
               (bucket [''marked'' \<mapsto> [], ''not_found'' \<mapsto> [], ''already_complete'' \<mapsto> [],
                        ''failed'' \<mapsto> []] k) @
             (if k = ''not_found''
              then filter (same_name (strip v)) (names_of (values_to_process item_values)) else [])"
    and e: "snd w' = (snd w @ [Get_items (Some items)]) @ evs" "calls_on (strip v) evs = []"
    by auto
  show nf: "filter (same_name (strip v))
        (bucket (results_of (mark_complete_results api item_values w)) ''not_found'') =
        filter (same_name (strip v)) (names_of (values_to_process item_values))"
    unfolding r using f by simp
  show "strip v \<in> set (bucket (results_of (mark_complete_results api item_values w)) ''not_found'')"
    using occurrence_in_names[OF v] unfolding nf[symmetric] by simp
  show "filter (same_name (strip v))
        (bucket (results_of (mark_complete_results api item_values w)) ''marked'') = []"
    unfolding r using f by simp
  show "calls_on (strip v) (new_events w (snd (mark_complete_results api item_values w))) = []"
    unfolding r using new_events_fetch[OF e(1)] e(2) by simp
qed

theorem mark_complete_completed_item_not_found_witness:
  "get_shopping_list_items scripted
     ([Some [\<lparr>item_id = Some ''1'', item_value = Some ''Eggs'', item_completed = Some True\<rparr>]],
      [True]) =
     (Some [\<lparr>item_id = Some ''1'', item_value = Some ''Eggs'', item_completed = Some True\<rparr>],
      ([], [True])) \<and>
   '' eggs'' \<in> set (values_to_process (Many [''milk'', '' eggs''])) \<and> strip '' eggs'' = ''eggs'' \<and>
   matches ''eggs'' \<lparr>item_id = Some ''1'', item_value = Some ''Eggs'', item_completed = Some True\<rparr> \<and>
   get_completed \<lparr>item_id = Some ''1'', item_value = Some ''Eggs'', item_completed = Some True\<rparr> \<and>
   ''eggs'' \<in> set (bucket (results_of (mark_complete_results scripted (Many [''milk'', '' eggs''])
     (([Some [\<lparr>item_id = Some ''1'', item_value = Some ''Eggs'', item_completed = Some True\<rparr>]],
       [True]), []))) ''not_found'') \<and>
   calls_on ''eggs'' (new_events
     (([Some [\<lparr>item_id = Some ''1'', item_value = Some ''Eggs'', item_completed = Some True\<rparr>]],
       [True]), [])
     (snd (mark_complete_results scripted (Many [''milk'', '' eggs''])
     (([Some [\<lparr>item_id = Some ''1'', item_value = Some ''Eggs'', item_completed = Some True\<rparr>]],
       [True]), [])))) = []"
proof -
  let ?eggs = "\<lparr>item_id = Some ''1'', item_value = Some ''Eggs'', item_completed = Some True\<rparr>"
  let ?w = "(([Some [?eggs]], [True]), []) :: (item list option list \<times> bool list) world"
  have g: "get_shopping_list_items scripted (fst ?w) = (Some [?eggs], ([], [True]))"
    by (simp add: scripted_def)
  have v: "'' eggs'' \<in> set (values_to_process (Many [''milk'', '' eggs'']))"
    by (simp add: values_to_process_def)
  have s: "strip '' eggs'' = ''eggs''" by (simp add: strip_def isspace_def)
  have m: "matches ''eggs'' ?eggs"
    by (simp add: matches_def get_value_def strip_def isspace_def lower_def lower_char_def)
  have c: "get_completed ?eggs" by (simp add: get_completed_def)
  from mark_complete_completed_item_not_found
    [of scripted "Many [''milk'', '' eggs'']" ?w "[?eggs]" "([], [True])" "'' eggs''"]
    g v s c
  have "''eggs'' \<in> set (bucket (results_of (mark_complete_results scripted
          (Many [''milk'', '' eggs'']) ?w)) ''not_found'') \<and>
        calls_on ''eggs'' (new_events ?w (snd (mark_complete_results scripted
          (Many [''milk'', '' eggs'']) ?w))) = []"
    by simp
  with g v s m c show ?thesis by simp
qed

text \<open>
  The claim as stated fails: \<^verbatim>\<open>mark_complete("Eggs")\<close> when the only remote item
  \<^verbatim>\<open>Eggs\<close> is completed returns \<^verbatim>\<open>Not found (incomplete): Eggs.\<close>, with the name
  in \<^verbatim>\<open>not_found\<close> and nothing in \<^verbatim>\<open>already_complete\<close>.
\<close>

theorem mark_complete_already_complete_counterexample:
  "mark_complete scripted (Single ''Eggs'')
     (([Some [\<lparr>item_id = Some ''1'', item_value = Some ''Eggs'', item_completed = Some True\<rparr>]],
       [True]), []) =
     (''Not found (incomplete): Eggs.'',
      (([], [True]),
       [Get_items (Some [\<lparr>item_id = Some ''1'', item_value = Some ''Eggs'',
                         item_completed = Some True\<rparr>])])) \<and>
   bucket (results_of (mark_complete_results scripted (Single ''Eggs'')
     (([Some [\<lparr>item_id = Some ''1'', item_value = Some ''Eggs'', item_completed = Some True\<rparr>]],
       [True]), []))) ''already_complete'' = [] \<and>
   bucket (results_of (mark_complete_results scripted (Single ''Eggs'')
     (([Some [\<lparr>item_id = Some ''1'', item_value = Some ''Eggs'', item_completed = Some True\<rparr>]],
       [True]), []))) ''not_found'' = [''Eggs'']"
  by (simp add: mark_complete_def mark_complete_results_def values_to_process_def
      no_valid_values_def strip_def isspace_def call_get_def scripted_def incomplete_of_def
      filter_incomplete_items_def get_completed_def mark_complete_step_def
      mark_complete_summary_def find_item_def append_to_def bucket_def results_of_def
      summary_line_def render_summary_def Let_def)

section \<open>A match that lacks an id\<close>

lemma bucketed_notin: "k \<notin> set labels \<Longrightarrow> bucketed names labels k = []"
  by (auto simp: bucketed_def filter_empty_conv dest: set_zip_rightD)

lemma notin_subset: "A \<subseteq> B \<Longrightarrow> x \<notin> B \<Longrightarrow> x \<notin> A"
  by blast

lemma mutated_item_Delete: "mutated_item (Delete_item x ok) = Some x"
  by simp

lemma mutated_item_Mark: "mutated_item (Mark_completed x ok) = Some x"
  by simp

text \<open>
  Claim C5, as the code has it. On the \<open>delete_item\<close> path, when the first candidate of
  the snapshot matching a name lacks an id (the key absent, or the id empty), every
  occurrence of the name in the batch is bucketed \<^verbatim>\<open>missing_id\<close>, none is bucketed
  \<^verbatim>\<open>deleted\<close>, and no mutate-one call is made on an item matching the name. The
  \<open>mark_complete\<close> path has no such check and no such bucket: \<^verbatim>\<open>missing_id\<close> is empty
  after every batch, and when the first name of a batch has an id-less first match, the
  mark-completed call is made on that item, right after the fetch, and the name is
  bucketed \<^verbatim>\<open>marked\<close> or \<^verbatim>\<open>failed\<close> by the call's answer.
\<close>

theorem missing_id_only_in_delete_item:
  "(get_shopping_list_items api (fst w) = (all_items, s1) \<and>
    v \<in> set (values_to_process item_values) \<and> strip v \<noteq> [] \<and>
    find_item (incomplete_of all_items) (strip v) = Some it \<and> no_id it \<longrightarrow>
      strip v \<in> set (bucket (results_of (delete_item_results api item_values w)) ''missing_id'') \<and>
      filter (same_name (strip v))
        (bucket (results_of (delete_item_results api item_values w)) ''missing_id'') =
        filter (same_name (strip v)) (names_of (values_to_process item_values)) \<and>
      filter (same_name (strip v))
        (bucket (results_of (delete_item_results api item_values w)) ''deleted'') = [] \<and>
      calls_on (strip v) (new_events w (snd (delete_item_results api item_values w))) = []) \<and>
   bucket (results_of (mark_complete_results api item_values w)) ''missing_id'' = [] \<and>
   (get_shopping_list_items api (fst w) = (all_items, s1) \<and>
    values_to_process item_values = v # rest \<and> strip v \<noteq> [] \<and>
    find_item (incomplete_of all_items) (strip v) = Some it \<and> no_id it \<and>
    mark_item_as_completed api it s1 = (ok, s2) \<longrightarrow>
      take 2 (new_events w (snd (mark_complete_results api item_values w))) =
        [Get_items all_items, Mark_completed it ok] \<and>
      strip v \<in> set (bucket (results_of (mark_complete_results api item_values w))
                      (if ok then ''marked'' else ''failed'')))"
proof (intro conjI impI)
  assume h: "get_shopping_list_items api (fst w) = (all_items, s1) \<and>
    v \<in> set (values_to_process item_values) \<and> strip v \<noteq> [] \<and>
    find_item (incomplete_of all_items) (strip v) = Some it \<and> no_id it"
  then have g: "get_shopping_list_items api (fst w) = (all_items, s1)"
    and v: "v \<in> set (values_to_process item_values)" "strip v \<noteq> []"
    and f: "find_item (incomplete_of all_items) (strip v) = Some it" and n: "no_id it"
    by blast+
  from delete_item_results_loop[OF valid_values[OF v] g] obtain pool' res' w' where
    l: "match_loop no_id ''missing_id'' ''deleted'' (delete_shopping_list_item api)
       Delete_item (values_to_process item_values)
       (incomplete_of all_items,
        [''deleted'' \<mapsto> [], ''not_found'' \<mapsto> [], ''missing_id'' \<mapsto> [], ''failed'' \<mapsto> []],
        (s1, snd w @ [Get_items all_items])) = (pool', res', w')"
    and r: "delete_item_results api item_values w = (Inr res', w')"
    by blast
  from match_loop_skipped[OF l mutated_item_Delete f n] obtain evs where
    b: "\<forall>k. filter (same_name (strip v)) (bucket res' k) =
             filter (same_name (strip v))
               (bucket [''deleted'' \<mapsto> [], ''not_found'' \<mapsto> [], ''missing_id'' \<mapsto> [],
                        ''failed'' \<mapsto> []] k) @
             (if k = ''missing_id''
              then filter (same_name (strip v)) (names_of (values_to_process item_values)) else [])"
    and e: "snd w' = (snd w @ [Get_items all_items]) @ evs" "calls_on (strip v) evs = []"
    by auto
  show mi: "filter (same_name (strip v))
        (bucket (results_of (delete_item_results api item_values w)) ''missing_id'') =
        filter (same_name (strip v)) (names_of (values_to_process item_values))"
    unfolding r using b by simp
  show "strip v \<in> set (bucket (results_of (delete_item_results api item_values w)) ''missing_id'')"
    using occurrence_in_names[OF v] unfolding mi[symmetric] by simp
  show "filter (same_name (strip v))
        (bucket (results_of (delete_item_results api item_values w)) ''deleted'') = []"
    unfolding r using b by simp
  show "calls_on (strip v) (new_events w (snd (delete_item_results api item_values w))) = []"
    unfolding r using new_events_fetch[OF e(1)] e(2) by simp
next
  from mark_complete_partition[of item_values api w] obtain labels where
    l: "set labels \<subseteq> {''marked'', ''not_found'', ''already_complete'', ''failed''}"
       "\<forall>k. bucket (results_of (mark_complete_results api item_values w)) k =
            bucketed (names_of (values_to_process item_values)) labels k"
    unfolding buckets_partition_def by blast
  have "''missing_id'' \<notin> {''marked'', ''not_found'', ''already_complete'', ''failed''}" by simp
  with l(1) have "''missing_id'' \<notin> set labels" by (rule notin_subset)
  then show "bucket (results_of (mark_complete_results api item_values w)) ''missing_id'' = []"
    using l(2) by (simp add: bucketed_notin)
next
  assume h: "get_shopping_list_items api (fst w) = (all_items, s1) \<and>
    values_to_process item_values = v # rest \<and> strip v \<noteq> [] \<and>
    find_item (incomplete_of all_items) (strip v) = Some it \<and> no_id it \<and>
    mark_item_as_completed api it s1 = (ok, s2)"
  then have g: "get_shopping_list_items api (fst w) = (all_items, s1)"
    and vs: "values_to_process item_values = v # rest" and v: "strip v \<noteq> []"
    and f: "find_item (incomplete_of all_items) (strip v) = Some it"
    and c: "mark_item_as_completed api it s1 = (ok, s2)"
    by blast+
  have "v \<in> set (values_to_process item_values)" using vs by simp
  from mark_complete_results_loop[OF valid_values[OF this v] g] obtain pool' res' w' where
    l: "match_loop get_completed ''already_complete'' ''marked'' (mark_item_as_completed api)
       Mark_completed (values_to_process item_values)
       (incomplete_of all_items,
        [''marked'' \<mapsto> [], ''not_found'' \<mapsto> [], ''already_complete'' \<mapsto> [], ''failed'' \<mapsto> []],
        (s1, snd w @ [Get_items all_items])) = (pool', res', w')"
    and r: "mark_complete_results api item_values w = (Inr res', w')"
    by blast
  have nc: "\<not> get_completed it"
    using find_item_SomeD[OF f] incomplete_of_not_completed by blast
  let ?init = "[''marked'' \<mapsto> [], ''not_found'' \<mapsto> [], ''already_complete'' \<mapsto> [], ''failed'' \<mapsto> []]"
  let ?key = "if ok then ''marked'' else ''failed''"
  have st: "match_step get_completed ''already_complete'' ''marked'' (mark_item_as_completed api)
       Mark_completed v
       (incomplete_of all_items, ?init, (s1, snd w @ [Get_items all_items])) =
       ((if ok then remove1 it (incomplete_of all_items) else incomplete_of all_items),
        append_to ?init ?key (strip v),
        (s2, snd w @ [Get_items all_items, Mark_completed it ok]))"
    using v f nc c by (simp add: match_step_def)
  have "match_loop get_completed ''already_complete'' ''marked'' (mark_item_as_completed api)
       Mark_completed rest
       ((if ok then remove1 it (incomplete_of all_items) else incomplete_of all_items),
        append_to ?init ?key (strip v),
        (s2, snd w @ [Get_items all_items, Mark_completed it ok])) = (pool', res', w')"
    using l unfolding vs by (simp add: st)
  note ext = match_loop_extends[OF this]
  from ext obtain evs where
    e: "snd w' = (snd w @ [Get_items all_items, Mark_completed it ok]) @ evs"
    by (metis snd_conv)
  from ext have "\<exists>ms. bucket res' ?key = bucket (append_to ?init ?key (strip v)) ?key @ ms"
    by (rule conjunct2[THEN spec])
  then obtain ms where
    b: "bucket res' ?key = bucket (append_to ?init ?key (strip v)) ?key @ ms" ..
  show "take 2 (new_events w (snd (mark_complete_results api item_values w))) =
        [Get_items all_items, Mark_completed it ok]"
    unfolding r using e by (simp add: new_events_def)
  show "strip v \<in> set (bucket (results_of (mark_complete_results api item_values w)) ?key)"
    unfolding r using b by (simp add: bucket_append_to)
qed

theorem missing_id_only_in_delete_item_witness:
  "get_shopping_list_items scripted
     ([Some [\<lparr>item_id = None, item_value = Some ''Eggs'', item_completed = Some False\<rparr>]],
      [True]) =
     (Some [\<lparr>item_id = None, item_value = Some ''Eggs'', item_completed = Some False\<rparr>],
      ([], [True])) \<and>
   find_item
     (incomplete_of (Some [\<lparr>item_id = None, item_value = Some ''Eggs'', item_completed = Some False\<rparr>]))
     ''eggs'' =
     Some \<lparr>item_id = None, item_value = Some ''Eggs'', item_completed = Some False\<rparr> \<and>
   no_id \<lparr>item_id = None, item_value = Some ''Eggs'', item_completed = Some False\<rparr> \<and>
   mark_item_as_completed scripted
     \<lparr>item_id = None, item_value = Some ''Eggs'', item_completed = Some False\<rparr> ([], [True]) =
     (True, ([], [])) \<and>
   ''eggs'' \<in> set (bucket (results_of (delete_item_results scripted (Many ['' eggs''])
     (([Some [\<lparr>item_id = None, item_value = Some ''Eggs'', item_completed = Some False\<rparr>]],
       [True]), []))) ''missing_id'') \<and>
   calls_on ''eggs'' (new_events
     (([Some [\<lparr>item_id = None, item_value = Some ''Eggs'', item_completed = Some False\<rparr>]],
       [True]), [])
     (snd (delete_item_results scripted (Many ['' eggs''])
     (([Some [\<lparr>item_id = None, item_value = Some ''Eggs'', item_completed = Some False\<rparr>]],
       [True]), [])))) = [] \<and>
   ''eggs'' \<in> set (bucket (results_of (mark_complete_results scripted (Many ['' eggs''])
     (([Some [\<lparr>item_id = None, item_value = Some ''Eggs'', item_completed = Some False\<rparr>]],
       [True]), []))) ''marked'')"
proof -
  let ?eggs = "\<lparr>item_id = None, item_value = Some ''Eggs'', item_completed = Some False\<rparr>"
  let ?w = "(([Some [?eggs]], [True]), []) :: (item list option list \<times> bool list) world"
  let ?iv = "Many ['' eggs'']"
  have g: "get_shopping_list_items scripted (fst ?w) = (Some [?eggs], ([], [True]))"
    by (simp add: scripted_def)
  have vp: "values_to_process ?iv = ['' eggs'']" by (simp add: values_to_process_def)
  have s: "strip '' eggs'' = ''eggs''" by (simp add: strip_def isspace_def)
  have f: "find_item (incomplete_of (Some [?eggs])) ''eggs'' = Some ?eggs"
    by (simp add: find_item_def incomplete_of_def filter_incomplete_items_def get_completed_def
        matches_def get_value_def strip_def isspace_def lower_def lower_char_def)
  have n: "no_id ?eggs" by (simp add: no_id_def)
  have c: "mark_item_as_completed scripted ?eggs ([], [True]) = (True, ([], []))"
    by (simp add: scripted_def)
  from missing_id_only_in_delete_item
    [of scripted ?w "Some [?eggs]" "([], [True])" "'' eggs''" ?iv ?eggs "[]" True "([], [])"]
    g vp s f n c
  have "''eggs'' \<in> set (bucket (results_of (delete_item_results scripted ?iv ?w)) ''missing_id'') \<and>
        calls_on ''eggs'' (new_events ?w (snd (delete_item_results scripted ?iv ?w))) = [] \<and>
        ''eggs'' \<in> set (bucket (results_of (mark_complete_results scripted ?iv ?w)) ''marked'')"
    by simp
  with g f n c show ?thesis by simp
qed

text \<open>
  The claim as stated fails on the \<open>mark_complete\<close> path:
  \<^verbatim>\<open>mark_complete("eggs")\<close> against the incomplete item \<^verbatim>\<open>Eggs\<close> without an id
  makes the mark-completed call on it and returns \<^verbatim>\<open>Marked complete: eggs.\<close>.
\<close>

theorem mark_complete_missing_id_counterexample:
  "no_id \<lparr>item_id = None, item_value = Some ''Eggs'', item_completed = Some False\<rparr> \<and>
   mark_complete scripted (Single ''eggs'')
     (([Some [\<lparr>item_id = None, item_value = Some ''Eggs'', item_completed = Some False\<rparr>]],
       [True]), []) =
     (''Marked complete: eggs.'',
      (([], []),
       [Get_items (Some [\<lparr>item_id = None, item_value = Some ''Eggs'',
                         item_completed = Some False\<rparr>]),
        Mark_completed \<lparr>item_id = None, item_value = Some ''Eggs'', item_completed = Some False\<rparr>
          True])) \<and>
   bucket (results_of (mark_complete_results scripted (Single ''eggs'')
     (([Some [\<lparr>item_id = None, item_value = Some ''Eggs'', item_completed = Some False\<rparr>]],
       [True]), []))) ''missing_id'' = [] \<and>
   bucket (results_of (mark_complete_results scripted (Single ''eggs'')
     (([Some [\<lparr>item_id = None, item_value = Some ''Eggs'', item_completed = Some False\<rparr>]],
       [True]), []))) ''marked'' = [''eggs'']"
  by (simp add: mark_complete_def mark_complete_results_def values_to_process_def
      no_valid_values_def strip_def isspace_def call_get_def call_mark_def scripted_def
      incomplete_of_def filter_incomplete_items_def get_completed_def get_value_def no_id_def
      mark_complete_step_def matches_def lower_def lower_char_def
      mark_complete_summary_def find_item_def append_to_def bucket_def results_of_def
      summary_line_def render_summary_def Let_def)

section \<open>The loop of mark_incomplete, name by name\<close>

lemma matches_completed_update [simp]:
  "matches n (x\<lparr>item_completed := c\<rparr>) = matches n x"
  by (simp add: matches_def get_value_def)

lemma find_item_index_same_name:
  "same_name n m \<Longrightarrow> find_item_index pool m = find_item_index pool n"
  by (simp add: find_item_index_def matches_same_name)

lemma find_item_index_update_other:
  assumes "find_item_index pool n = Some (i, x)" and "j < length pool"
    and "\<not> matches n (pool ! j)"
  shows "find_item_index (pool[j := (pool ! j)\<lparr>item_completed := c\<rparr>]) n = Some (i, x)"
proof -
  from assms(1) have i: "i < length pool" "pool ! i = x" "matches n x"
      "\<forall>k < i. \<not> matches n (pool ! k)"
    by (simp_all add: find_item_index_Some_iff)
  have ne: "j \<noteq> i" using i(2,3) assms(3) by auto
  show ?thesis
    unfolding find_item_index_Some_iff
    using i ne assms(2,3) by (auto simp: nth_list_update)
qed

lemma find_item_index_update_first:
  assumes "find_item_index pool n = Some (i, x)"
  shows "find_item_index (pool[i := x\<lparr>item_completed := c\<rparr>]) n =
           Some (i, x\<lparr>item_completed := c\<rparr>)"
proof -
  from assms have i: "i < length pool" "pool ! i = x" "matches n x"
      "\<forall>k < i. \<not> matches n (pool ! k)"
    by (simp_all add: find_item_index_Some_iff)
  show ?thesis
    unfolding find_item_index_Some_iff using i by (auto simp: nth_list_update)
qed

lemma mutated_item_Unmark: "mutated_item (Unmark_completed x ok) = Some x"
  by simp

text \<open>One step of \<open>mark_incomplete\<close> on a name that is no occurrence of \<open>n\<close>.\<close>

lemma mark_incomplete_step_other_name:
  assumes s: "mark_incomplete_step api v (pool, res, w) = (pool', res', w')"
    and other: "strip v = [] \<or> \<not> same_name n (strip v)"
    and first: "find_item_index pool n = Some (i, x)"
  shows "find_item_index pool' n = Some (i, x) \<and>
         (\<forall>k. filter (same_name n) (bucket res' k) = filter (same_name n) (bucket res k)) \<and>
         (\<exists>evs. snd w' = snd w @ evs \<and> calls_on n evs = [])"
proof -
  have nm: "j < length pool \<and> pool ! j = y \<and> \<not> matches n y"
    if "find_item_index pool (strip v) = Some (j, y)" "strip v \<noteq> []" for j y
  proof -
    from that(1) have y: "j < length pool" "pool ! j = y" "matches (strip v) y"
      by (simp_all add: find_item_index_Some_iff)
    have "\<not> matches n y" using matches_both[OF y(3), of n] other that(2) by blast
    with y show ?thesis by simp
  qed
  from mark_incomplete_step_cases[OF s] show ?thesis
  proof (elim disjE conjE exE)
    assume "strip v = []" "pool' = pool" "res' = res" "w' = w"
    with first show ?thesis by simp
  next
    assume "strip v \<noteq> []" "pool' = pool" "res' = append_to res ''not_found'' (strip v)" "w' = w"
    with first other show ?thesis by (simp add: filter_bucket_append_to)
  next
    fix j y
    assume "strip v \<noteq> []" "pool' = pool" "res' = append_to res ''already_incomplete'' (strip v)"
      "w' = w"
    with first other show ?thesis by (simp add: filter_bucket_append_to)
  next
    fix j y ok s'
    assume a: "strip v \<noteq> []" "find_item_index pool (strip v) = Some (j, y)"
      "w' = (s', snd w @ [Unmark_completed y ok])"
      "pool' = (if ok then pool[j := y\<lparr>item_completed := Some False\<rparr>] else pool)"
      "res' = append_to res (if ok then ''unmarked'' else ''failed'') (strip v)"
    note y = nm[OF a(2,1)]
    have c: "calls_on n [Unmark_completed y ok] = []"
      using y by (simp add: calls_on_single[OF mutated_item_Unmark])
    have "find_item_index (pool[j := (pool ! j)\<lparr>item_completed := Some False\<rparr>]) n = Some (i, x)"
      using first y by (intro find_item_index_update_other) simp_all
    then have p: "find_item_index pool' n = Some (i, x)"
      using a(4) first y by (simp split: if_splits)
    have r: "\<forall>k. filter (same_name n) (bucket res' k) = filter (same_name n) (bucket res k)"
      using a(1,5) other by (simp add: filter_bucket_append_to)
    from p r c a(3) show ?thesis by simp
  qed
qed

text \<open>The first match of \<open>n\<close> is incomplete: it stays so, every occurrence of \<open>n\<close> is
  bucketed \<^verbatim>\<open>already_incomplete\<close>, and no call is made on an item matching \<open>n\<close>.\<close>

lemma mark_incomplete_loop_already:
  assumes "mark_incomplete_loop api vs (pool, res, w) = (pool', res', w')"
    and "find_item_index pool n = Some (i, x)" and nc: "\<not> get_completed x"
  shows "(\<forall>k. filter (same_name n) (bucket res' k) =
               filter (same_name n) (bucket res k) @
               (if k = ''already_incomplete'' then filter (same_name n) (names_of vs) else [])) \<and>
         (\<exists>evs. snd w' = snd w @ evs \<and> calls_on n evs = [])"
  using assms(1,2)
proof (induction vs arbitrary: pool res w)
  case Nil
  then show ?case by (simp add: names_of_def)
next
  case (Cons v vs)
  obtain p1 r1 w1 where s: "mark_incomplete_step api v (pool, res, w) = (p1, r1, w1)"
    by (metis prod_cases3)
  have rest: "mark_incomplete_loop api vs (p1, r1, w1) = (pool', res', w')"
    using Cons.prems(1) s by simp
  have step: "find_item_index p1 n = Some (i, x) \<and>
         (\<forall>k. filter (same_name n) (bucket r1 k) =
               filter (same_name n) (bucket res k) @
               (if k = ''already_incomplete'' then filter (same_name n) (names_of [v]) else [])) \<and>
         (\<exists>evs. snd w1 = snd w @ evs \<and> calls_on n evs = [])"
  proof (cases "strip v \<noteq> [] \<and> same_name n (strip v)")
    case True
    then have f: "find_item_index pool (strip v) = Some (i, x)"
      using Cons.prems(2) find_item_index_same_name[of n "strip v" pool] by simp
    with True nc s have "p1 = pool" "r1 = append_to res ''already_incomplete'' (strip v)" "w1 = w"
      by (simp_all add: mark_incomplete_step_def)
    with True Cons.prems(2) show ?thesis
      by (simp add: names_of_def filter_bucket_append_to)
  next
    case False
    then have o: "strip v = [] \<or> \<not> same_name n (strip v)" by blast
    from mark_incomplete_step_other_name[OF s o Cons.prems(2)] False
    show ?thesis by (auto simp: names_of_def)
  qed
  then obtain evs1 where
    s1: "find_item_index p1 n = Some (i, x)"
        "\<forall>k. filter (same_name n) (bucket r1 k) =
               filter (same_name n) (bucket res k) @
               (if k = ''already_incomplete'' then filter (same_name n) (names_of [v]) else [])"
        "snd w1 = snd w @ evs1" "calls_on n evs1 = []"
    by blast
  from Cons.IH[OF rest s1(1)] obtain evs2 where
    s2: "\<forall>k. filter (same_name n) (bucket res' k) =
               filter (same_name n) (bucket r1 k) @
               (if k = ''already_incomplete'' then filter (same_name n) (names_of vs) else [])"
        "snd w' = snd w1 @ evs2" "calls_on n evs2 = []"
    by blast
  have n: "names_of (v # vs) = names_of [v] @ names_of vs" by (simp add: names_of_def)
  show ?case
  proof (intro conjI allI)
    show "filter (same_name n) (bucket res' k) =
               filter (same_name n) (bucket res k) @
               (if k = ''already_incomplete'' then filter (same_name n) (names_of (v # vs)) else [])"
      for k
      using s1(2) s2(1) by (simp add: n)
    show "\<exists>evs. snd w' = snd w @ evs \<and> calls_on n evs = []"
      using s1(3,4) s2(2,3) by (intro exI[of _ "evs1 @ evs2"]) simp
  qed
qed

lemma bucket_mark_incomplete_init [simp]:
  "bucket [''unmarked'' \<mapsto> [], ''not_found'' \<mapsto> [], ''already_incomplete'' \<mapsto> [], ''failed'' \<mapsto> []] k = []"
  by (simp add: bucket_def)

lemma mark_incomplete_results_loop:
  assumes "\<not> no_valid_values (values_to_process item_values)"
    and "get_shopping_list_items api (fst w) = (Some items, s1)"
  obtains pool' res' w' where
    "mark_incomplete_loop api (values_to_process item_values)
       (items,
        [''unmarked'' \<mapsto> [], ''not_found'' \<mapsto> [], ''already_incomplete'' \<mapsto> [], ''failed'' \<mapsto> []],
        (s1, snd w @ [Get_items (Some items)])) = (pool', res', w')"
    and "mark_incomplete_results api item_values w = (Inr res', w')"
proof -
  obtain pool' res' w' where l: "mark_incomplete_loop api (values_to_process item_values)
       (items,
        [''unmarked'' \<mapsto> [], ''not_found'' \<mapsto> [], ''already_incomplete'' \<mapsto> [], ''failed'' \<mapsto> []],
        (s1, snd w @ [Get_items (Some items)])) = (pool', res', w')"
    by (metis prod_cases3)
  have "mark_incomplete_results api item_values w = (Inr res', w')"
    using assms l by (simp add: mark_incomplete_results_def call_get_def)
  with l that show thesis by simp
qed

lemma occurrences_nonempty:
  "v \<in> set vs \<Longrightarrow> strip v \<noteq> [] \<Longrightarrow> filter (same_name (strip v)) (names_of vs) \<noteq> []"
  using occurrence_in_names[of v vs] by (metis empty_iff empty_set)

section \<open>The occurrences of a name with one match\<close>

text \<open>Exactly one candidate matches \<open>n\<close> and it is not skipped. The calls made on an
  item matching \<open>n\<close> are calls on that candidate: some that fail, one for each of the
  first \<open>k\<close> occurrences of \<open>n\<close>, then at most one that succeeds, for the next
  occurrence. The candidate is then removed, and every later occurrence is not found.\<close>

lemma match_loop_unique:
  assumes "match_loop skip skipped succeeded call ev vs (pool, res, w) = (pool', res', w')"
    and mi: "\<And>x ok. mutated_item (ev x ok) = Some x"
    and "filter (matches n) pool = [it]" and sk: "\<not> skip it"
  shows "\<exists>k evs. k \<le> length (filter (same_name n) (names_of vs)) \<and>
           snd w' = snd w @ evs \<and>
           calls_on n evs =
             replicate k (ev it False) @
             (if k < length (filter (same_name n) (names_of vs)) then [ev it True] else []) \<and>
           (\<forall>key. filter (same_name n) (bucket res' key) =
               filter (same_name n) (bucket res key) @
               (if key = ''failed'' then take k (filter (same_name n) (names_of vs)) else []) @
               (if key = succeeded
                then take 1 (drop k (filter (same_name n) (names_of vs))) else []) @
               (if key = ''not_found''
                then drop (Suc k) (filter (same_name n) (names_of vs)) else []))"
  using assms(1,3)
proof (induction vs arbitrary: pool res w)
  case Nil
  then show ?case by (simp add: names_of_def)
next
  case (Cons v vs)
  let ?ns = "filter (same_name n) (names_of vs)"
  obtain p1 r1 w1 where s: "match_step skip skipped succeeded call ev v (pool, res, w) = (p1, r1, w1)"
    by (metis prod_cases3)
  have rest: "match_loop skip skipped succeeded call ev vs (p1, r1, w1) = (pool', res', w')"
    using Cons.prems(1) s by simp
  have mt: "matches n it" using Cons.prems(2) by (metis filter_eq_ConsD)
  show ?case
  proof (cases "strip v \<noteq> [] \<and> same_name n (strip v)")
    case True
    have ns: "filter (same_name n) (names_of (v # vs)) = strip v # ?ns"
      using True by (simp add: names_of_def)
    have "find_item pool n = Some it"
      using Cons.prems(2) by (simp add: find_item_filter)
    then have f: "find_item pool (strip v) = Some it"
      using True find_item_same_name[of n "strip v" pool] by simp
    obtain b s' where c: "call it (fst w) = (b, s')" by (cases "call it (fst w)")
    show ?thesis
    proof (cases b)
      case True
      from \<open>strip v \<noteq> [] \<and> same_name n (strip v)\<close> f sk c True s
      have e: "p1 = remove1 it pool" "r1 = append_to res succeeded (strip v)"
          "w1 = (s', snd w @ [ev it True])"
        by (simp_all add: match_step_def)
      have "filter (matches n) p1 = []"
        unfolding e(1) using Cons.prems(2) by (rule filter_remove1_only)
      then have no: "\<forall>x \<in> set p1. \<not> matches n x" by (simp add: filter_empty_conv)
      from match_loop_no_match[OF rest mi no] obtain evs2 where
        s2: "\<forall>k. filter (same_name n) (bucket res' k) =
                 filter (same_name n) (bucket r1 k) @
                 (if k = ''not_found'' then ?ns else [])"
            "snd w' = snd w1 @ evs2" "calls_on n evs2 = []"
        by blast
      have c1: "calls_on n (ev it True # evs2) = [ev it True]"
        using s2(3) mt calls_on_append[of n "[ev it True]" evs2]
        by (simp add: calls_on_single[OF mi])
      show ?thesis
      proof (intro exI[of _ "0::nat"] exI[of _ "ev it True # evs2"] conjI allI)
        show "0 \<le> length (filter (same_name n) (names_of (v # vs)))" by simp
        show "snd w' = snd w @ ev it True # evs2" using s2(2) e(3) by simp
        show "calls_on n (ev it True # evs2) =
                replicate 0 (ev it False) @
                (if 0 < length (filter (same_name n) (names_of (v # vs)))
                 then [ev it True] else [])"
          using c1 by (simp add: ns)
        show "filter (same_name n) (bucket res' key) =
               filter (same_name n) (bucket res key) @
               (if key = ''failed''
                then take 0 (filter (same_name n) (names_of (v # vs))) else []) @
               (if key = succeeded
                then take 1 (drop 0 (filter (same_name n) (names_of (v # vs)))) else []) @
               (if key = ''not_found''
                then drop (Suc 0) (filter (same_name n) (names_of (v # vs))) else [])" for key
          using s2(1) \<open>strip v \<noteq> [] \<and> same_name n (strip v)\<close> unfolding ns e(2)
          by (simp add: filter_bucket_append_to)
      qed
    next
      case False
      from \<open>strip v \<noteq> [] \<and> same_name n (strip v)\<close> f sk c False s
      have e: "p1 = pool" "r1 = append_to res ''failed'' (strip v)"
          "w1 = (s', snd w @ [ev it False])"
        by (simp_all add: match_step_def)
      have u: "filter (matches n) p1 = [it]" using e(1) Cons.prems(2) by simp
      from Cons.IH[OF rest u] obtain k evs2 where
        s2: "k \<le> length ?ns" "snd w' = snd w1 @ evs2"
            "calls_on n evs2 =
               replicate k (ev it False) @ (if k < length ?ns then [ev it True] else [])"
            "\<forall>key. filter (same_name n) (bucket res' key) =
               filter (same_name n) (bucket r1 key) @
               (if key = ''failed'' then take k ?ns else []) @
               (if key = succeeded then take 1 (drop k ?ns) else []) @
               (if key = ''not_found'' then drop (Suc k) ?ns else [])"
        by blast
      have c1: "calls_on n (ev it False # evs2) = ev it False # calls_on n evs2"
        using mt calls_on_append[of n "[ev it False]" evs2]
        by (simp add: calls_on_single[OF mi])
      show ?thesis
      proof (intro exI[of _ "Suc k"] exI[of _ "ev it False # evs2"] conjI allI)
        show "Suc k \<le> length (filter (same_name n) (names_of (v # vs)))"
          using s2(1) by (simp add: ns)
        show "snd w' = snd w @ ev it False # evs2" using s2(2) e(3) by simp
        show "calls_on n (ev it False # evs2) =
                replicate (Suc k) (ev it False) @
                (if Suc k < length (filter (same_name n) (names_of (v # vs)))
                 then [ev it True] else [])"
          using c1 s2(3) by (simp add: ns)
        show "filter (same_name n) (bucket res' key) =
               filter (same_name n) (bucket res key) @
               (if key = ''failed''
                then take (Suc k) (filter (same_name n) (names_of (v # vs))) else []) @
               (if key = succeeded
                then take 1 (drop (Suc k) (filter (same_name n) (names_of (v # vs)))) else []) @
               (if key = ''not_found''
                then drop (Suc (Suc k)) (filter (same_name n) (names_of (v # vs))) else [])"
          for key
          using s2(4) \<open>strip v \<noteq> [] \<and> same_name n (strip v)\<close> unfolding ns e(2)
          by (simp add: filter_bucket_append_to)
      qed
    qed
  next
    case False
    then have o: "strip v = [] \<or> \<not> same_name n (strip v)" by blast
    have ns: "filter (same_name n) (names_of (v # vs)) = ?ns"
      using False by (auto simp: names_of_def)
    from match_step_other_name[OF s mi o] obtain evs1 where
      k: "filter (matches n) p1 = filter (matches n) pool"
         "\<forall>k. filter (same_name n) (bucket r1 k) = filter (same_name n) (bucket res k)"
         "snd w1 = snd w @ evs1" "calls_on n evs1 = []"
      by blast
    have u: "filter (matches n) p1 = [it]" using k(1) Cons.prems(2) by simp
    from Cons.IH[OF rest u] obtain k2 evs2 where
      s2: "k2 \<le> length ?ns" "snd w' = snd w1 @ evs2"
          "calls_on n evs2 =
             replicate k2 (ev it False) @ (if k2 < length ?ns then [ev it True] else [])"
          "\<forall>key. filter (same_name n) (bucket res' key) =
             filter (same_name n) (bucket r1 key) @
             (if key = ''failed'' then take k2 ?ns else []) @
             (if key = succeeded then take 1 (drop k2 ?ns) else []) @
             (if key = ''not_found'' then drop (Suc k2) ?ns else [])"
      by blast
    show ?thesis
      unfolding ns
    proof (intro exI[of _ k2] exI[of _ "evs1 @ evs2"] conjI allI)
      show "k2 \<le> length ?ns" by (rule s2(1))
      show "snd w' = snd w @ evs1 @ evs2" using s2(2) k(3) by simp
      show "calls_on n (evs1 @ evs2) =
              replicate k2 (ev it False) @ (if k2 < length ?ns then [ev it True] else [])"
        using s2(3) k(4) by simp
      show "filter (same_name n) (bucket res' key) =
             filter (same_name n) (bucket res key) @
             (if key = ''failed'' then take k2 ?ns else []) @
             (if key = succeeded then take 1 (drop k2 ?ns) else []) @
             (if key = ''not_found'' then drop (Suc k2) ?ns else [])" for key
        using s2(4) k(2) by simp
    qed
  qed
qed

text \<open>The first match of \<open>n\<close> is completed. The calls made on an item matching \<open>n\<close>
  are calls on that item: some that fail, one for each of the first \<open>k\<close> occurrences of
  \<open>n\<close>, then at most one that succeeds, for the next occurrence. The item is then
  flagged incomplete where it stands, and every later occurrence finds it so.\<close>

lemma mark_incomplete_loop_first:
  assumes "mark_incomplete_loop api vs (pool, res, w) = (pool', res', w')"
    and "find_item_index pool n = Some (i, it)" and c: "get_completed it"
  shows "\<exists>k evs. k \<le> length (filter (same_name n) (names_of vs)) \<and>
           snd w' = snd w @ evs \<and>
           calls_on n evs =
             replicate k (Unmark_completed it False) @
             (if k < length (filter (same_name n) (names_of vs))
              then [Unmark_completed it True] else []) \<and>
           (\<forall>key. filter (same_name n) (bucket res' key) =
               filter (same_name n) (bucket res key) @
               (if key = ''failed'' then take k (filter (same_name n) (names_of vs)) else []) @
               (if key = ''unmarked''
                then take 1 (drop k (filter (same_name n) (names_of vs))) else []) @
               (if key = ''already_incomplete''
                then drop (Suc k) (filter (same_name n) (names_of vs)) else []))"
  using assms(1,2)
proof (induction vs arbitrary: pool res w)
  case Nil
  then show ?case by (simp add: names_of_def)
next
  case (Cons v vs)
  let ?ns = "filter (same_name n) (names_of vs)"
  obtain p1 r1 w1 where s: "mark_incomplete_step api v (pool, res, w) = (p1, r1, w1)"
    by (metis prod_cases3)
  have rest: "mark_incomplete_loop api vs (p1, r1, w1) = (pool', res', w')"
    using Cons.prems(1) s by simp
  have mt: "matches n it" using Cons.prems(2) by (simp add: find_item_index_Some_iff)
  show ?case
  proof (cases "strip v \<noteq> [] \<and> same_name n (strip v)")
    case True
    have ns: "filter (same_name n) (names_of (v # vs)) = strip v # ?ns"
      using True by (simp add: names_of_def)
    have f: "find_item_index pool (strip v) = Some (i, it)"
      using True Cons.prems(2) find_item_index_same_name[of n "strip v" pool] by simp
    obtain b s' where cl: "unmark_item_as_completed api it (fst w) = (b, s')"
      by (cases "unmark_item_as_completed api it (fst w)")
    show ?thesis
    proof (cases b)
      case True
      from \<open>strip v \<noteq> [] \<and> same_name n (strip v)\<close> f c cl True s
      have e: "p1 = pool[i := it\<lparr>item_completed := Some False\<rparr>]"
          "r1 = append_to res ''unmarked'' (strip v)"
          "w1 = (s', snd w @ [Unmark_completed it True])"
        by (simp_all add: mark_incomplete_step_def call_unmark_def)
      have f1: "find_item_index p1 n = Some (i, it\<lparr>item_completed := Some False\<rparr>)"
        unfolding e(1) using Cons.prems(2) by (rule find_item_index_update_first)
      have nc: "\<not> get_completed (it\<lparr>item_completed := Some False\<rparr>)"
        by (simp add: get_completed_def)
      from mark_incomplete_loop_already[OF rest f1 nc] obtain evs2 where
        s2: "\<forall>k. filter (same_name n) (bucket res' k) =
                 filter (same_name n) (bucket r1 k) @
                 (if k = ''already_incomplete'' then ?ns else [])"
            "snd w' = snd w1 @ evs2" "calls_on n evs2 = []"
        by blast
      have c1: "calls_on n (Unmark_completed it True # evs2) = [Unmark_completed it True]"
        using s2(3) mt calls_on_append[of n "[Unmark_completed it True]" evs2]
        by (simp add: calls_on_single[OF mutated_item_Unmark])
      show ?thesis
      proof (intro exI[of _ "0::nat"] exI[of _ "Unmark_completed it True # evs2"] conjI allI)
        show "0 \<le> length (filter (same_name n) (names_of (v # vs)))" by simp
        show "snd w' = snd w @ Unmark_completed it True # evs2" using s2(2) e(3) by simp
        show "calls_on n (Unmark_completed it True # evs2) =
                replicate 0 (Unmark_completed it False) @
                (if 0 < length (filter (same_name n) (names_of (v # vs)))
                 then [Unmark_completed it True] else [])"
          using c1 by (simp add: ns)
        show "filter (same_name n) (bucket res' key) =
               filter (same_name n) (bucket res key) @
               (if key = ''failed''
                then take 0 (filter (same_name n) (names_of (v # vs))) else []) @
               (if key = ''unmarked''
                then take 1 (drop 0 (filter (same_name n) (names_of (v # vs)))) else []) @
               (if key = ''already_incomplete''
                then drop (Suc 0) (filter (same_name n) (names_of (v # vs))) else [])" for key
          using s2(1) \<open>strip v \<noteq> [] \<and> same_name n (strip v)\<close> unfolding ns e(2)
          by (simp add: filter_bucket_append_to)
      qed
    next
      case False
      from \<open>strip v \<noteq> [] \<and> same_name n (strip v)\<close> f c cl False s
      have e: "p1 = pool" "r1 = append_to res ''failed'' (strip v)"
          "w1 = (s', snd w @ [Unmark_completed it False])"
        by (simp_all add: mark_incomplete_step_def call_unmark_def)
      have u: "find_item_index p1 n = Some (i, it)" using e(1) Cons.prems(2) by simp
      from Cons.IH[OF rest u] obtain k evs2 where
        s2: "k \<le> length ?ns" "snd w' = snd w1 @ evs2"
            "calls_on n evs2 =
               replicate k (Unmark_completed it False) @
               (if k < length ?ns then [Unmark_completed it True] else [])"
            "\<forall>key. filter (same_name n) (bucket res' key) =
               filter (same_name n) (bucket r1 key) @
               (if key = ''failed'' then take k ?ns else []) @
               (if key = ''unmarked'' then take 1 (drop k ?ns) else []) @
               (if key = ''already_incomplete'' then drop (Suc k) ?ns else [])"
        by blast
      have c1: "calls_on n (Unmark_completed it False # evs2) =
                  Unmark_completed it False # calls_on n evs2"
        using mt calls_on_append[of n "[Unmark_completed it False]" evs2]
        by (simp add: calls_on_single[OF mutated_item_Unmark])
      show ?thesis
      proof (intro exI[of _ "Suc k"] exI[of _ "Unmark_completed it False # evs2"] conjI allI)
        show "Suc k \<le> length (filter (same_name n) (names_of (v # vs)))"
          using s2(1) by (simp add: ns)
        show "snd w' = snd w @ Unmark_completed it False # evs2" using s2(2) e(3) by simp
        show "calls_on n (Unmark_completed it False # evs2) =
                replicate (Suc k) (Unmark_completed it False) @
                (if Suc k < length (filter (same_name n) (names_of (v # vs)))
                 then [Unmark_completed it True] else [])"
          using c1 s2(3) by (simp add: ns)
        show "filter (same_name n) (bucket res' key) =
               filter (same_name n) (bucket res key) @
               (if key = ''failed''
                then take (Suc k) (filter (same_name n) (names_of (v # vs))) else []) @
               (if key = ''unmarked''
                then take 1 (drop (Suc k) (filter (same_name n) (names_of (v # vs)))) else []) @
               (if key = ''already_incomplete''
                then drop (Suc (Suc k)) (filter (same_name n) (names_of (v # vs))) else [])"
          for key
          using s2(4) \<open>strip v \<noteq> [] \<and> same_name n (strip v)\<close> unfolding ns e(2)
          by (simp add: filter_bucket_append_to)
      qed
    qed
  next
    case False
    then have o: "strip v = [] \<or> \<not> same_name n (strip v)" by blast
    have ns: "filter (same_name n) (names_of (v # vs)) = ?ns"
      using False by (auto simp: names_of_def)
    from mark_incomplete_step_other_name[OF s o Cons.prems(2)] obtain evs1 where
      k: "find_item_index p1 n = Some (i, it)"
         "\<forall>k. filter (same_name n) (bucket r1 k) = filter (same_name n) (bucket res k)"
         "snd w1 = snd w @ evs1" "calls_on n evs1 = []"
      by blast
    from Cons.IH[OF rest k(1)] obtain k2 evs2 where
      s2: "k2 \<le> length ?ns" "snd w' = snd w1 @ evs2"
          "calls_on n evs2 =
             replicate k2 (Unmark_completed it False) @
             (if k2 < length ?ns then [Unmark_completed it True] else [])"
          "\<forall>key. filter (same_name n) (bucket res' key) =
             filter (same_name n) (bucket r1 key) @
             (if key = ''failed'' then take k2 ?ns else []) @
             (if key = ''unmarked'' then take 1 (drop k2 ?ns) else []) @
             (if key = ''already_incomplete'' then drop (Suc k2) ?ns else [])"
      by blast
    show ?thesis
      unfolding ns
    proof (intro exI[of _ k2] exI[of _ "evs1 @ evs2"] conjI allI)
      show "k2 \<le> length ?ns" by (rule s2(1))
      show "snd w' = snd w @ evs1 @ evs2" using s2(2) k(3) by simp
      show "calls_on n (evs1 @ evs2) =
              replicate k2 (Unmark_completed it False) @
              (if k2 < length ?ns then [Unmark_completed it True] else [])"
        using s2(3) k(4) by simp
      show "filter (same_name n) (bucket res' key) =
             filter (same_name n) (bucket res key) @
             (if key = ''failed'' then take k2 ?ns else []) @
             (if key = ''unmarked'' then take 1 (drop k2 ?ns) else []) @
             (if key = ''already_incomplete'' then drop (Suc k2) ?ns else [])" for key
        using s2(4) k(2) by simp
    qed
  qed
qed


section \<open>The same name twice in a batch\<close>

text \<open>
  Claim C3, as the code has it. Take a name of the batch, and let its occurrences be the
  non-empty stripped names of the batch equal to it up to case, in order. Nothing is assumed
  of the answers of the mutate-one calls.

  For \<open>delete_item\<close> and \<open>mark_complete\<close>: when exactly one candidate of the snapshot
  matches the name (for \<open>delete_item\<close>, one with an id), there is a number \<open>k\<close> of
  occurrences for which the call on that item fails. The calls made on an item matching the
  name are \<open>k\<close> failed calls on that item, followed by one successful call when an
  occurrence is left: the item is mutated at most once. The first \<open>k\<close> occurrences are
  bucketed \<^verbatim>\<open>failed\<close>, the next one is bucketed as the success, and every later
  occurrence is bucketed \<^verbatim>\<open>not_found\<close>: the item was removed from the candidates.

  For \<open>mark_incomplete\<close> the item is not removed but flagged incomplete in place: when
  the first item of the snapshot matching the name is completed, the calls are the same,
  the first \<open>k\<close> occurrences are bucketed \<^verbatim>\<open>failed\<close>, the next one
  \<^verbatim>\<open>unmarked\<close>, and every later occurrence is bucketed
  \<^verbatim>\<open>already_incomplete\<close>, none \<^verbatim>\<open>not_found\<close>.
\<close>

theorem duplicate_name_in_batch:
  "(get_shopping_list_items api (fst w) = (all_items, s1) \<and>
    a \<in> set (values_to_process item_values) \<and> strip a \<noteq> [] \<and>
    filter (matches (strip a)) (incomplete_of all_items) = [it] \<and> \<not> no_id it \<longrightarrow>
      (\<exists>k \<le> length (filter (same_name (strip a)) (names_of (values_to_process item_values))).
         calls_on (strip a) (new_events w (snd (delete_item_results api item_values w))) =
           replicate k (Delete_item it False) @
           (if k < length (filter (same_name (strip a)) (names_of (values_to_process item_values)))
            then [Delete_item it True] else []) \<and>
         filter (same_name (strip a))
           (bucket (results_of (delete_item_results api item_values w)) ''failed'') =
           take k (filter (same_name (strip a)) (names_of (values_to_process item_values))) \<and>
         filter (same_name (strip a))
           (bucket (results_of (delete_item_results api item_values w)) ''deleted'') =
           take 1 (drop k (filter (same_name (strip a)) (names_of (values_to_process item_values)))) \<and>
         filter (same_name (strip a))
           (bucket (results_of (delete_item_results api item_values w)) ''not_found'') =
           drop (Suc k) (filter (same_name (strip a)) (names_of (values_to_process item_values))))) \<and>
   (get_shopping_list_items api (fst w) = (all_items, s1) \<and>
    a \<in> set (values_to_process item_values) \<and> strip a \<noteq> [] \<and>
    filter (matches (strip a)) (incomplete_of all_items) = [it] \<longrightarrow>
      (\<exists>k \<le> length (filter (same_name (strip a)) (names_of (values_to_process item_values))).
         calls_on (strip a) (new_events w (snd (mark_complete_results api item_values w))) =
           replicate k (Mark_completed it False) @
           (if k < length (filter (same_name (strip a)) (names_of (values_to_process item_values)))
            then [Mark_completed it True] else []) \<and>
         filter (same_name (strip a))
           (bucket (results_of (mark_complete_results api item_values w)) ''failed'') =
           take k (filter (same_name (strip a)) (names_of (values_to_process item_values))) \<and>
         filter (same_name (strip a))
           (bucket (results_of (mark_complete_results api item_values w)) ''marked'') =
           take 1 (drop k (filter (same_name (strip a)) (names_of (values_to_process item_values)))) \<and>
         filter (same_name (strip a))
           (bucket (results_of (mark_complete_results api item_values w)) ''not_found'') =
           drop (Suc k) (filter (same_name (strip a)) (names_of (values_to_process item_values))))) \<and>
   (get_shopping_list_items api (fst w) = (Some items, s1) \<and>
    a \<in> set (values_to_process item_values) \<and> strip a \<noteq> [] \<and>
    find_item_index items (strip a) = Some (i, it) \<and> get_completed it \<longrightarrow>
      (\<exists>k \<le> length (filter (same_name (strip a)) (names_of (values_to_process item_values))).
         calls_on (strip a) (new_events w (snd (mark_incomplete_results api item_values w))) =
           replicate k (Unmark_completed it False) @
           (if k < length (filter (same_name (strip a)) (names_of (values_to_process item_values)))
            then [Unmark_completed it True] else []) \<and>
         filter (same_name (strip a))
           (bucket (results_of (mark_incomplete_results api item_values w)) ''failed'') =
           take k (filter (same_name (strip a)) (names_of (values_to_process item_values))) \<and>
         filter (same_name (strip a))
           (bucket (results_of (mark_incomplete_results api item_values w)) ''unmarked'') =
           take 1 (drop k (filter (same_name (strip a)) (names_of (values_to_process item_values)))) \<and>
         filter (same_name (strip a))
           (bucket (results_of (mark_incomplete_results api item_values w)) ''already_incomplete'') =
           drop (Suc k) (filter (same_name (strip a)) (names_of (values_to_process item_values))) \<and>
         filter (same_name (strip a))
           (bucket (results_of (mark_incomplete_results api item_values w)) ''not_found'') = []))"
proof (intro conjI impI)
  let ?ns = "filter (same_name (strip a)) (names_of (values_to_process item_values))"
  assume h: "get_shopping_list_items api (fst w) = (all_items, s1) \<and>
    a \<in> set (values_to_process item_values) \<and> strip a \<noteq> [] \<and>
    filter (matches (strip a)) (incomplete_of all_items) = [it] \<and> \<not> no_id it"
  then have g: "get_shopping_list_items api (fst w) = (all_items, s1)"
    and a: "a \<in> set (values_to_process item_values)" "strip a \<noteq> []"
    and u: "filter (matches (strip a)) (incomplete_of all_items) = [it]"
    and n: "\<not> no_id it"
    by blast+
  from delete_item_results_loop[OF valid_values[OF a] g] obtain pool' res' w' where
    l: "match_loop no_id ''missing_id'' ''deleted'' (delete_shopping_list_item api)
       Delete_item (values_to_process item_values)
       (incomplete_of all_items,
        [''deleted'' \<mapsto> [], ''not_found'' \<mapsto> [], ''missing_id'' \<mapsto> [], ''failed'' \<mapsto> []],
        (s1, snd w @ [Get_items all_items])) = (pool', res', w')"
    and r: "delete_item_results api item_values w = (Inr res', w')"
    by blast
  from match_loop_unique[OF l mutated_item_Delete u n] obtain k evs where
    k: "k \<le> length ?ns"
    and e: "snd w' = (snd w @ [Get_items all_items]) @ evs"
    and c: "calls_on (strip a) evs =
              replicate k (Delete_item it False) @
              (if k < length ?ns then [Delete_item it True] else [])"
    and b: "\<forall>key. filter (same_name (strip a)) (bucket res' key) =
          filter (same_name (strip a))
            (bucket [''deleted'' \<mapsto> [], ''not_found'' \<mapsto> [], ''missing_id'' \<mapsto> [],
                     ''failed'' \<mapsto> []] key) @
          (if key = ''failed'' then take k ?ns else []) @
          (if key = ''deleted'' then take 1 (drop k ?ns) else []) @
          (if key = ''not_found'' then drop (Suc k) ?ns else [])"
    by auto
  show "\<exists>k \<le> length ?ns.
         calls_on (strip a) (new_events w (snd (delete_item_results api item_values w))) =
           replicate k (Delete_item it False) @
           (if k < length ?ns then [Delete_item it True] else []) \<and>
         filter (same_name (strip a))
           (bucket (results_of (delete_item_results api item_values w)) ''failed'') = take k ?ns \<and>
         filter (same_name (strip a))
           (bucket (results_of (delete_item_results api item_values w)) ''deleted'') =
           take 1 (drop k ?ns) \<and>
         filter (same_name (strip a))
           (bucket (results_of (delete_item_results api item_values w)) ''not_found'') =
           drop (Suc k) ?ns"
  proof (intro exI[of _ k] conjI)
    show "k \<le> length ?ns" by (rule k)
    show "calls_on (strip a) (new_events w (snd (delete_item_results api item_values w))) =
           replicate k (Delete_item it False) @
           (if k < length ?ns then [Delete_item it True] else [])"
      unfolding r using new_events_fetch[OF e] c by simp
    show "filter (same_name (strip a))
           (bucket (results_of (delete_item_results api item_values w)) ''failed'') = take k ?ns"
      unfolding r using b[rule_format, of "''failed''"] by simp
    show "filter (same_name (strip a))
           (bucket (results_of (delete_item_results api item_values w)) ''deleted'') =
           take 1 (drop k ?ns)"
      unfolding r using b[rule_format, of "''deleted''"] by simp
    show "filter (same_name (strip a))
           (bucket (results_of (delete_item_results api item_values w)) ''not_found'') =
           drop (Suc k) ?ns"
      unfolding r using b[rule_format, of "''not_found''"] by simp
  qed
next
  let ?ns = "filter (same_name (strip a)) (names_of (values_to_process item_values))"
  assume h: "get_shopping_list_items api (fst w) = (all_items, s1) \<and>
    a \<in> set (values_to_process item_values) \<and> strip a \<noteq> [] \<and>
    filter (matches (strip a)) (incomplete_of all_items) = [it]"
  then have g: "get_shopping_list_items api (fst w) = (all_items, s1)"
    and a: "a \<in> set (values_to_process item_values)" "strip a \<noteq> []"
    and u: "filter (matches (strip a)) (incomplete_of all_items) = [it]"
    by blast+
  have "it \<in> set (filter (matches (strip a)) (incomplete_of all_items))"
    unfolding u by simp
  then have "it \<in> set (incomplete_of all_items)" by simp
  then have n: "\<not> get_completed it" by (rule incomplete_of_not_completed)
  from mark_complete_results_loop[OF valid_values[OF a] g] obtain pool' res' w' where
    l: "match_loop get_completed ''already_complete'' ''marked'' (mark_item_as_completed api)
       Mark_completed (values_to_process item_values)
       (incomplete_of all_items,
        [''marked'' \<mapsto> [], ''not_found'' \<mapsto> [], ''already_complete'' \<mapsto> [], ''failed'' \<mapsto> []],
        (s1, snd w @ [Get_items all_items])) = (pool', res', w')"
    and r: "mark_complete_results api item_values w = (Inr res', w')"
    by blast
  from match_loop_unique[OF l mutated_item_Mark u n] obtain k evs where
    k: "k \<le> length ?ns"
    and e: "snd w' = (snd w @ [Get_items all_items]) @ evs"
    and c: "calls_on (strip a) evs =
              replicate k (Mark_completed it False) @
              (if k < length ?ns then [Mark_completed it True] else [])"
    and b: "\<forall>key. filter (same_name (strip a)) (bucket res' key) =
          filter (same_name (strip a))
            (bucket [''marked'' \<mapsto> [], ''not_found'' \<mapsto> [], ''already_complete'' \<mapsto> [],
                     ''failed'' \<mapsto> []] key) @
          (if key = ''failed'' then take k ?ns else []) @
          (if key = ''marked'' then take 1 (drop k ?ns) else []) @
          (if key = ''not_found'' then drop (Suc k) ?ns else [])"
    by auto
  show "\<exists>k \<le> length ?ns.
         calls_on (strip a) (new_events w (snd (mark_complete_results api item_values w))) =
           replicate k (Mark_completed it False) @
           (if k < length ?ns then [Mark_completed it True] else []) \<and>
         filter (same_name (strip a))
           (bucket (results_of (mark_complete_results api item_values w)) ''failed'') = take k ?ns \<and>
         filter (same_name (strip a))
           (bucket (results_of (mark_complete_results api item_values w)) ''marked'') =
           take 1 (drop k ?ns) \<and>
         filter (same_name (strip a))
           (bucket (results_of (mark_complete_results api item_values w)) ''not_found'') =
           drop (Suc k) ?ns"
  proof (intro exI[of _ k] conjI)
    show "k \<le> length ?ns" by (rule k)
    show "calls_on (strip a) (new_events w (snd (mark_complete_results api item_values w))) =
           replicate k (Mark_completed it False) @
           (if k < length ?ns then [Mark_completed it True] else [])"
      unfolding r using new_events_fetch[OF e] c by simp
    show "filter (same_name (strip a))
           (bucket (results_of (mark_complete_results api item_values w)) ''failed'') = take k ?ns"
      unfolding r using b[rule_format, of "''failed''"] by simp
    show "filter (same_name (strip a))
           (bucket (results_of (mark_complete_results api item_values w)) ''marked'') =
           take 1 (drop k ?ns)"
      unfolding r using b[rule_format, of "''marked''"] by simp
    show "filter (same_name (strip a))
           (bucket (results_of (mark_complete_results api item_values w)) ''not_found'') =
           drop (Suc k) ?ns"
      unfolding r using b[rule_format, of "''not_found''"] by simp
  qed
next
  let ?ns = "filter (same_name (strip a)) (names_of (values_to_process item_values))"
  assume h: "get_shopping_list_items api (fst w) = (Some items, s1) \<and>
    a \<in> set (values_to_process item_values) \<and> strip a \<noteq> [] \<and>
    find_item_index items (strip a) = Some (i, it) \<and> get_completed it"
  then have g: "get_shopping_list_items api (fst w) = (Some items, s1)"
    and a: "a \<in> set (values_to_process item_values)" "strip a \<noteq> []"
    and f: "find_item_index items (strip a) = Some (i, it)"
    and cp: "get_completed it"
    by blast+
  from mark_incomplete_results_loop[OF valid_values[OF a] g] obtain pool' res' w' where
    l: "mark_incomplete_loop api (values_to_process item_values)
       (items,
        [''unmarked'' \<mapsto> [], ''not_found'' \<mapsto> [], ''already_incomplete'' \<mapsto> [], ''failed'' \<mapsto> []],
        (s1, snd w @ [Get_items (Some items)])) = (pool', res', w')"
    and r: "mark_incomplete_results api item_values w = (Inr res', w')"
    by blast
  from mark_incomplete_loop_first[OF l f cp] obtain k evs where
    k: "k \<le> length ?ns"
    and e: "snd w' = (snd w @ [Get_items (Some items)]) @ evs"
    and c: "calls_on (strip a) evs =
              replicate k (Unmark_completed it False) @
              (if k < length ?ns then [Unmark_completed it True] else [])"
    and b: "\<forall>key. filter (same_name (strip a)) (bucket res' key) =
          filter (same_name (strip a))
            (bucket [''unmarked'' \<mapsto> [], ''not_found'' \<mapsto> [], ''already_incomplete'' \<mapsto> [],
                     ''failed'' \<mapsto> []] key) @
          (if key = ''failed'' then take k ?ns else []) @
          (if key = ''unmarked'' then take 1 (drop k ?ns) else []) @
          (if key = ''already_incomplete'' then drop (Suc k) ?ns else [])"
    by auto
  show "\<exists>k \<le> length ?ns.
         calls_on (strip a) (new_events w (snd (mark_incomplete_results api item_values w))) =
           replicate k (Unmark_completed it False) @
           (if k < length ?ns then [Unmark_completed it True] else []) \<and>
         filter (same_name (strip a))
           (bucket (results_of (mark_incomplete_results api item_values w)) ''failed'') = take k ?ns \<and>
         filter (same_name (strip a))
           (bucket (results_of (mark_incomplete_results api item_values w)) ''unmarked'') =
           take 1 (drop k ?ns) \<and>
         filter (same_name (strip a))
           (bucket (results_of (mark_incomplete_results api item_values w)) ''already_incomplete'') =
           drop (Suc k) ?ns \<and>
         filter (same_name (strip a))
           (bucket (results_of (mark_incomplete_results api item_values w)) ''not_found'') = []"
  proof (intro exI[of _ k] conjI)
    show "k \<le> length ?ns" by (rule k)
    show "calls_on (strip a) (new_events w (snd (mark_incomplete_results api item_values w))) =
           replicate k (Unmark_completed it False) @
           (if k < length ?ns then [Unmark_completed it True] else [])"
      unfolding r using new_events_fetch[OF e] c by simp
    show "filter (same_name (strip a))
           (bucket (results_of (mark_incomplete_results api item_values w)) ''failed'') = take k ?ns"
      unfolding r using b[rule_format, of "''failed''"] by simp
    show "filter (same_name (strip a))
           (bucket (results_of (mark_incomplete_results api item_values w)) ''unmarked'') =
           take 1 (drop k ?ns)"
      unfolding r using b[rule_format, of "''unmarked''"] by simp
    show "filter (same_name (strip a))
           (bucket (results_of (mark_incomplete_results api item_values w)) ''already_incomplete'') =
           drop (Suc k) ?ns"
      unfolding r using b[rule_format, of "''already_incomplete''"] by simp
    show "filter (same_name (strip a))
           (bucket (results_of (mark_incomplete_results api item_values w)) ''not_found'') = []"
      unfolding r using b[rule_format, of "''not_found''"] by simp
  qed
qed

text \<open>
  An instance: the batch \<^verbatim>\<open>["milk", " Milk ", "MILK"]\<close> against the one item
  \<^verbatim>\<open>Milk\<close>, the call on it failing once and succeeding next. The first name is
  bucketed \<^verbatim>\<open>failed\<close>, the second as the success and the third
  \<^verbatim>\<open>not_found\<close> (\<^verbatim>\<open>already_incomplete\<close> for \<open>mark_incomplete\<close>). With a call
  that succeeds at once, \<^verbatim>\<open>delete_item(["milk", " Milk "])\<close> deletes for the first
  name and reports the second as not found.
\<close>

theorem duplicate_name_in_batch_witness:
  "get_shopping_list_items scripted
     ([Some [\<lparr>item_id = Some ''1'', item_value = Some ''Milk'', item_completed = Some False\<rparr>]],
      [False, True]) =
     (Some [\<lparr>item_id = Some ''1'', item_value = Some ''Milk'', item_completed = Some False\<rparr>],
      ([], [False, True])) \<and>
   ''milk'' \<in> set (values_to_process (Many [''milk'', '' Milk '', ''MILK''])) \<and>
   strip ''milk'' \<noteq> [] \<and>
   filter (matches (strip ''milk''))
     (incomplete_of (Some [\<lparr>item_id = Some ''1'', item_value = Some ''Milk'',
                             item_completed = Some False\<rparr>])) =
     [\<lparr>item_id = Some ''1'', item_value = Some ''Milk'', item_completed = Some False\<rparr>] \<and>
   \<not> no_id \<lparr>item_id = Some ''1'', item_value = Some ''Milk'', item_completed = Some False\<rparr> \<and>
   filter (same_name (strip ''milk'')) (names_of (values_to_process (Many [''milk'', '' Milk '', ''MILK'']))) =
     [''milk'', ''Milk'', ''MILK''] \<and>
   (\<exists>k \<le> length (filter (same_name (strip ''milk'')) (names_of (values_to_process (Many
    [''milk'', '' Milk '', ''MILK''])))).
         calls_on (strip ''milk'') (new_events (([Some [\<lparr>item_id = Some ''1'', item_value
             = Some ''Milk'', item_completed = Some False\<rparr>]], [False, True]), []) (snd
             (delete_item_results scripted (Many [''milk'', '' Milk '', ''MILK'']) (([Some
             [\<lparr>item_id = Some ''1'', item_value = Some ''Milk'', item_completed = Some
             False\<rparr>]], [False, True]), [])))) =
           replicate k (Delete_item \<lparr>item_id = Some ''1'', item_value = Some ''Milk'',
               item_completed = Some False\<rparr> False) @
           (if k < length (filter (same_name (strip ''milk'')) (names_of (values_to_process (Many
               [''milk'', '' Milk '', ''MILK'']))))
            then [Delete_item \<lparr>item_id = Some ''1'', item_value = Some ''Milk'',
                item_completed = Some False\<rparr> True] else []) \<and>
         filter (same_name (strip ''milk''))
           (bucket (results_of (delete_item_results scripted (Many [''milk'', '' Milk '',
               ''MILK'']) (([Some [\<lparr>item_id = Some ''1'', item_value = Some ''Milk'',
               item_completed = Some False\<rparr>]], [False, True]), []))) ''failed'') =
           take k (filter (same_name (strip ''milk'')) (names_of (values_to_process (Many
               [''milk'', '' Milk '', ''MILK''])))) \<and>
         filter (same_name (strip ''milk''))
           (bucket (results_of (delete_item_results scripted (Many [''milk'', '' Milk '',
               ''MILK'']) (([Some [\<lparr>item_id = Some ''1'', item_value = Some ''Milk'',
               item_completed = Some False\<rparr>]], [False, True]), []))) ''deleted'') =
           take 1 (drop k (filter (same_name (strip ''milk'')) (names_of (values_to_process (Many
               [''milk'', '' Milk '', ''MILK'']))))) \<and>
         filter (same_name (strip ''milk''))
           (bucket (results_of (delete_item_results scripted (Many [''milk'', '' Milk '',
               ''MILK'']) (([Some [\<lparr>item_id = Some ''1'', item_value = Some ''Milk'',
               item_completed = Some False\<rparr>]], [False, True]), []))) ''not_found'') =
           drop (Suc k) (filter (same_name (strip ''milk'')) (names_of (values_to_process (Many
               [''milk'', '' Milk '', ''MILK'']))))) \<and>
   delete_item scripted (Many [''milk'', '' Milk '', ''MILK''])
     (([Some [\<lparr>item_id = Some ''1'', item_value = Some ''Milk'', item_completed = Some False\<rparr>]],
       [False, True]), []) =
     (''Deleted: Milk. Not found (incomplete): MILK. Failed to delete: milk.'',
      (([], []),
       [Get_items (Some [\<lparr>item_id = Some ''1'', item_value = Some ''Milk'',
                         item_completed = Some False\<rparr>]),
        Delete_item \<lparr>item_id = Some ''1'', item_value = Some ''Milk'', item_completed = Some False\<rparr>
          False,
        Delete_item \<lparr>item_id = Some ''1'', item_value = Some ''Milk'', item_completed = Some False\<rparr>
          True])) \<and>
   delete_item scripted (Many [''milk'', '' Milk ''])
     (([Some [\<lparr>item_id = Some ''1'', item_value = Some ''Milk'', item_completed = Some False\<rparr>]],
       [True]), []) =
     (''Deleted: milk. Not found (incomplete): Milk.'',
      (([], []),
       [Get_items (Some [\<lparr>item_id = Some ''1'', item_value = Some ''Milk'',
                         item_completed = Some False\<rparr>]),
        Delete_item \<lparr>item_id = Some ''1'', item_value = Some ''Milk'', item_completed = Some False\<rparr>
          True])) \<and>
   (\<exists>k \<le> length (filter (same_name (strip ''milk'')) (names_of (values_to_process (Many
    [''milk'', '' Milk '', ''MILK''])))).
         calls_on (strip ''milk'') (new_events (([Some [\<lparr>item_id = Some ''1'', item_value
             = Some ''Milk'', item_completed = Some False\<rparr>]], [False, True]), []) (snd
             (mark_complete_results scripted (Many [''milk'', '' Milk '', ''MILK'']) (([Some
             [\<lparr>item_id = Some ''1'', item_value = Some ''Milk'', item_completed = Some
             False\<rparr>]], [False, True]), [])))) =
           replicate k (Mark_completed \<lparr>item_id = Some ''1'', item_value = Some ''Milk'',
               item_completed = Some False\<rparr> False) @
           (if k < length (filter (same_name (strip ''milk'')) (names_of (values_to_process (Many
               [''milk'', '' Milk '', ''MILK'']))))
            then [Mark_completed \<lparr>item_id = Some ''1'', item_value = Some ''Milk'',
                item_completed = Some False\<rparr> True] else []) \<and>
         filter (same_name (strip ''milk''))
           (bucket (results_of (mark_complete_results scripted (Many [''milk'', '' Milk '',
               ''MILK'']) (([Some [\<lparr>item_id = Some ''1'', item_value = Some ''Milk'',
               item_completed = Some False\<rparr>]], [False, True]), []))) ''failed'') =
           take k (filter (same_name (strip ''milk'')) (names_of (values_to_process (Many
               [''milk'', '' Milk '', ''MILK''])))) \<and>
         filter (same_name (strip ''milk''))
           (bucket (results_of (mark_complete_results scripted (Many [''milk'', '' Milk '',
               ''MILK'']) (([Some [\<lparr>item_id = Some ''1'', item_value = Some ''Milk'',
               item_completed = Some False\<rparr>]], [False, True]), []))) ''marked'') =
           take 1 (drop k (filter (same_name (strip ''milk'')) (names_of (values_to_process (Many
               [''milk'', '' Milk '', ''MILK'']))))) \<and>
         filter (same_name (strip ''milk''))
           (bucket (results_of (mark_complete_results scripted (Many [''milk'', '' Milk '',
               ''MILK'']) (([Some [\<lparr>item_id = Some ''1'', item_value = Some ''Milk'',
               item_completed = Some False\<rparr>]], [False, True]), []))) ''not_found'') =
           drop (Suc k) (filter (same_name (strip ''milk'')) (names_of (values_to_process (Many
               [''milk'', '' Milk '', ''MILK'']))))) \<and>
   mark_complete scripted (Many [''milk'', '' Milk '', ''MILK''])
     (([Some [\<lparr>item_id = Some ''1'', item_value = Some ''Milk'', item_completed = Some False\<rparr>]],
       [False, True]), []) =
     (''Marked complete: Milk. Not found (incomplete): MILK. Failed to mark complete: milk.'',
      (([], []),
       [Get_items (Some [\<lparr>item_id = Some ''1'', item_value = Some ''Milk'',
                         item_completed = Some False\<rparr>]),
        Mark_completed \<lparr>item_id = Some ''1'', item_value = Some ''Milk'',
                        item_completed = Some False\<rparr> False,
        Mark_completed \<lparr>item_id = Some ''1'', item_value = Some ''Milk'',
                        item_completed = Some False\<rparr> True])) \<and>
   get_shopping_list_items scripted
     ([Some [\<lparr>item_id = Some ''1'', item_value = Some ''Milk'', item_completed = Some True\<rparr>]],
      [False, True]) =
     (Some [\<lparr>item_id = Some ''1'', item_value = Some ''Milk'', item_completed = Some True\<rparr>],
      ([], [False, True])) \<and>
   find_item_index [\<lparr>item_id = Some ''1'', item_value = Some ''Milk'', item_completed = Some True\<rparr>]
     (strip ''milk'') =
     Some (0, \<lparr>item_id = Some ''1'', item_value = Some ''Milk'', item_completed = Some True\<rparr>) \<and>
   get_completed \<lparr>item_id = Some ''1'', item_value = Some ''Milk'', item_completed = Some True\<rparr> \<and>
   (\<exists>k \<le> length (filter (same_name (strip ''milk'')) (names_of (values_to_process (Many
    [''milk'', '' Milk '', ''MILK''])))).
         calls_on (strip ''milk'') (new_events (([Some [\<lparr>item_id = Some ''1'', item_value
             = Some ''Milk'', item_completed = Some True\<rparr>]], [False, True]), []) (snd
             (mark_incomplete_results scripted (Many [''milk'', '' Milk '', ''MILK'']) (([Some
             [\<lparr>item_id = Some ''1'', item_value = Some ''Milk'', item_completed = Some
             True\<rparr>]], [False, True]), [])))) =
           replicate k (Unmark_completed \<lparr>item_id = Some ''1'', item_value = Some
               ''Milk'', item_completed = Some True\<rparr> False) @
           (if k < length (filter (same_name (strip ''milk'')) (names_of (values_to_process (Many
               [''milk'', '' Milk '', ''MILK'']))))
            then [Unmark_completed \<lparr>item_id = Some ''1'', item_value = Some ''Milk'',
                item_completed = Some True\<rparr> True] else []) \<and>
         filter (same_name (strip ''milk''))
           (bucket (results_of (mark_incomplete_results scripted (Many [''milk'', '' Milk '',
               ''MILK'']) (([Some [\<lparr>item_id = Some ''1'', item_value = Some ''Milk'',
               item_completed = Some True\<rparr>]], [False, True]), []))) ''failed'') =
           take k (filter (same_name (strip ''milk'')) (names_of (values_to_process (Many
               [''milk'', '' Milk '', ''MILK''])))) \<and>
         filter (same_name (strip ''milk''))
           (bucket (results_of (mark_incomplete_results scripted (Many [''milk'', '' Milk '',
               ''MILK'']) (([Some [\<lparr>item_id = Some ''1'', item_value = Some ''Milk'',
               item_completed = Some True\<rparr>]], [False, True]), []))) ''unmarked'') =
           take 1 (drop k (filter (same_name (strip ''milk'')) (names_of (values_to_process (Many
               [''milk'', '' Milk '', ''MILK'']))))) \<and>
         filter (same_name (strip ''milk''))
           (bucket (results_of (mark_incomplete_results scripted (Many [''milk'', '' Milk '',
               ''MILK'']) (([Some [\<lparr>item_id = Some ''1'', item_value = Some ''Milk'',
               item_completed = Some True\<rparr>]], [False, True]), [])))
               ''already_incomplete'') =
           drop (Suc k) (filter (same_name (strip ''milk'')) (names_of (values_to_process (Many
               [''milk'', '' Milk '', ''MILK''])))) \<and>
         filter (same_name (strip ''milk''))
           (bucket (results_of (mark_incomplete_results scripted (Many [''milk'', '' Milk '',
               ''MILK'']) (([Some [\<lparr>item_id = Some ''1'', item_value = Some ''Milk'',
               item_completed = Some True\<rparr>]], [False, True]), []))) ''not_found'') = []) \<and>
   mark_incomplete scripted (Many [''milk'', '' Milk '', ''MILK''])
     (([Some [\<lparr>item_id = Some ''1'', item_value = Some ''Milk'', item_completed = Some True\<rparr>]],
       [False, True]), []) =
     (''Marked incomplete: Milk. Already incomplete: MILK. Failed to mark incomplete: milk.'',
      (([], []),
       [Get_items (Some [\<lparr>item_id = Some ''1'', item_value = Some ''Milk'',
                         item_completed = Some True\<rparr>]),
        Unmark_completed \<lparr>item_id = Some ''1'', item_value = Some ''Milk'',
                          item_completed = Some True\<rparr> False,
        Unmark_completed \<lparr>item_id = Some ''1'', item_value = Some ''Milk'',
                          item_completed = Some True\<rparr> True]))"
proof -
  let ?m = "\<lparr>item_id = Some ''1'', item_value = Some ''Milk'', item_completed = Some False\<rparr>"
  let ?c = "\<lparr>item_id = Some ''1'', item_value = Some ''Milk'', item_completed = Some True\<rparr>"
  let ?iv = "Many [''milk'', '' Milk '', ''MILK'']"
  let ?w = "(([Some [?m]], [False, True]), []) :: (item list option list \<times> bool list) world"
  let ?wc = "(([Some [?c]], [False, True]), []) :: (item list option list \<times> bool list) world"
  have g0: "get_shopping_list_items scripted ([Some [?m]], [False, True]) =
      (Some [?m], ([], [False, True]))"
    by (simp add: scripted_def)
  then have g: "get_shopping_list_items scripted (fst ?w) = (Some [?m], ([], [False, True]))"
    by simp
  have a1: "''milk'' \<in> set (values_to_process ?iv)" by (simp add: values_to_process_def)
  have a2: "strip ''milk'' \<noteq> []" by (simp add: strip_def isspace_def)
  have u: "filter (matches (strip ''milk'')) (incomplete_of (Some [?m])) = [?m]"
    by (simp add: incomplete_of_def filter_incomplete_items_def get_completed_def matches_def
        get_value_def strip_def isspace_def lower_def lower_char_def)
  have n: "\<not> no_id ?m" by (simp add: no_id_def)
  have occ: "filter (same_name (strip ''milk'')) (names_of (values_to_process ?iv)) =
               [''milk'', ''Milk'', ''MILK'']"
    by (simp add: names_of_def values_to_process_def strip_def isspace_def same_name_def
        lower_def lower_char_def)
  from g a1 a2 u n
  have hyp: "get_shopping_list_items scripted (fst ?w) = (Some [?m], ([], [False, True])) \<and>
      ''milk'' \<in> set (values_to_process ?iv) \<and> strip ''milk'' \<noteq> [] \<and>
      filter (matches (strip ''milk'')) (incomplete_of (Some [?m])) = [?m] \<and> \<not> no_id ?m"
    by - (intro conjI, assumption+)
  note d = duplicate_name_in_batch[where api = scripted and w = ?w and all_items = "Some [?m]"
      and ?s1.0 = "([], [False, True])" and a = "''milk''" and item_values = ?iv and it = ?m,
      THEN conjunct1, THEN mp, OF hyp]
  from g a1 a2 u
  have hyp2: "get_shopping_list_items scripted (fst ?w) = (Some [?m], ([], [False, True])) \<and>
      ''milk'' \<in> set (values_to_process ?iv) \<and> strip ''milk'' \<noteq> [] \<and>
      filter (matches (strip ''milk'')) (incomplete_of (Some [?m])) = [?m]"
    by - (intro conjI, assumption+)
  note d2 = duplicate_name_in_batch[where api = scripted and w = ?w and all_items = "Some [?m]"
      and ?s1.0 = "([], [False, True])" and a = "''milk''" and item_values = ?iv and it = ?m,
      THEN conjunct2, THEN conjunct1, THEN mp, OF hyp2]
  have run: "delete_item scripted ?iv ?w =
     (''Deleted: Milk. Not found (incomplete): MILK. Failed to delete: milk.'',
      (([], []), [Get_items (Some [?m]), Delete_item ?m False, Delete_item ?m True]))"
    by (simp add: delete_item_def delete_item_results_def values_to_process_def
        no_valid_values_def strip_def isspace_def call_get_def call_delete_def scripted_def
        incomplete_of_def filter_incomplete_items_def get_completed_def get_value_def no_id_def
        delete_item_step_def matches_def lower_def lower_char_def delete_item_summary_def
        find_item_def append_to_def bucket_def summary_line_def render_summary_def Let_def)
  have run0: "delete_item scripted (Many [''milk'', '' Milk '']) (([Some [?m]], [True]), []) =
     (''Deleted: milk. Not found (incomplete): Milk.'',
      (([], []), [Get_items (Some [?m]), Delete_item ?m True]))"
    by (simp add: delete_item_def delete_item_results_def values_to_process_def
        no_valid_values_def strip_def isspace_def call_get_def call_delete_def scripted_def
        incomplete_of_def filter_incomplete_items_def get_completed_def get_value_def no_id_def
        delete_item_step_def matches_def lower_def lower_char_def delete_item_summary_def
        find_item_def append_to_def bucket_def summary_line_def render_summary_def Let_def)
  have runm: "mark_complete scripted ?iv ?w =
     (''Marked complete: Milk. Not found (incomplete): MILK. Failed to mark complete: milk.'',
      (([], []), [Get_items (Some [?m]), Mark_completed ?m False, Mark_completed ?m True]))"
    by (simp add: mark_complete_def mark_complete_results_def values_to_process_def
        no_valid_values_def strip_def isspace_def call_get_def call_mark_def scripted_def
        incomplete_of_def filter_incomplete_items_def get_completed_def get_value_def
        mark_complete_step_def matches_def lower_def lower_char_def mark_complete_summary_def
        find_item_def append_to_def bucket_def summary_line_def render_summary_def Let_def)
  have f: "find_item_index [?c] (strip ''milk'') = Some (0, ?c)"
    by (simp add: find_item_index_def matches_def get_value_def strip_def isspace_def
        lower_def lower_char_def)
  have c: "get_completed ?c" by (simp add: get_completed_def)
  have gc0: "get_shopping_list_items scripted ([Some [?c]], [False, True]) =
      (Some [?c], ([], [False, True]))"
    by (simp add: scripted_def)
  then have gc: "get_shopping_list_items scripted (fst ?wc) = (Some [?c], ([], [False, True]))"
    by simp
  from gc a1 a2 f c
  have hyp3: "get_shopping_list_items scripted (fst ?wc) = (Some [?c], ([], [False, True])) \<and>
      ''milk'' \<in> set (values_to_process ?iv) \<and> strip ''milk'' \<noteq> [] \<and>
      find_item_index [?c] (strip ''milk'') = Some (0, ?c) \<and> get_completed ?c"
    by - (intro conjI, assumption+)
  note d3 = duplicate_name_in_batch[where api = scripted and w = ?wc and items = "[?c]"
      and ?s1.0 = "([], [False, True])" and a = "''milk''" and item_values = ?iv and it = ?c
      and i = 0, THEN conjunct2, THEN conjunct2, THEN mp, OF hyp3]
  have runu: "mark_incomplete scripted ?iv (([Some [?c]], [False, True]), []) =
     (''Marked incomplete: Milk. Already incomplete: MILK. Failed to mark incomplete: milk.'',
      (([], []), [Get_items (Some [?c]), Unmark_completed ?c False, Unmark_completed ?c True]))"
    by (simp add: mark_incomplete_def mark_incomplete_results_def values_to_process_def
        no_valid_values_def strip_def isspace_def call_get_def call_unmark_def scripted_def
        get_completed_def get_value_def mark_incomplete_step_def matches_def lower_def
        lower_char_def mark_incomplete_summary_def find_item_index_def append_to_def bucket_def
        summary_line_def render_summary_def Let_def)
  show ?thesis
    by (intro conjI) (fact g0 a1 a2 u n occ d run run0 d2 runm gc0 f c d3 runu)+
qed

text \<open>
  The claim as stated fails for \<open>mark_incomplete\<close>:
  \<^verbatim>\<open>mark_incomplete(["milk", " Milk "])\<close> against the one completed item
  \<^verbatim>\<open>Milk\<close> unmarks it for the first name and buckets the second in
  \<^verbatim>\<open>already_incomplete\<close>; \<^verbatim>\<open>not_found\<close> stays empty.
\<close>

theorem mark_incomplete_duplicate_counterexample:
  "mark_incomplete scripted (Many [''milk'', '' Milk ''])
     (([Some [\<lparr>item_id = Some ''1'', item_value = Some ''Milk'', item_completed = Some True\<rparr>]],
       [True]), []) =
     (''Marked incomplete: milk. Already incomplete: Milk.'',
      (([], []),
       [Get_items (Some [\<lparr>item_id = Some ''1'', item_value = Some ''Milk'',
                         item_completed = Some True\<rparr>]),
        Unmark_completed \<lparr>item_id = Some ''1'', item_value = Some ''Milk'',
                          item_completed = Some True\<rparr> True])) \<and>
   bucket (results_of (mark_incomplete_results scripted (Many [''milk'', '' Milk ''])
     (([Some [\<lparr>item_id = Some ''1'', item_value = Some ''Milk'', item_completed = Some True\<rparr>]],
       [True]), []))) ''not_found'' = [] \<and>
   bucket (results_of (mark_incomplete_results scripted (Many [''milk'', '' Milk ''])
     (([Some [\<lparr>item_id = Some ''1'', item_value = Some ''Milk'', item_completed = Some True\<rparr>]],
       [True]), []))) ''already_incomplete'' = [''Milk'']"
  by (simp add: mark_incomplete_def mark_incomplete_results_def values_to_process_def
      no_valid_values_def strip_def isspace_def call_get_def call_unmark_def scripted_def
      get_completed_def get_value_def mark_incomplete_step_def matches_def lower_def
      lower_char_def mark_incomplete_summary_def find_item_index_def append_to_def bucket_def
      results_of_def summary_line_def render_summary_def Let_def)

end
